theory Spec2Isabelle
  imports Main "HOL-Library.AList" "HOL-Library.Multiset"
begin

section \<open>The container component of the task manager (app.component.ts)\<close>

text \<open>
  The component \<^verbatim>\<open>AppComponent\<close> holds the displayed task list, the category list,
  the map from category to its number of uncompleted tasks, the four statistics fields
  and the filter values. Every handler writes some fields and subscribes to observables
  of the data facade; the subscriber's callback later writes further fields and may
  subscribe again. The embedding is a state machine: a handler is a function on the
  state that appends the subscriptions it makes to a list of pending requests, and the
  delivery of a response runs the callback of one pending request.
\<close>

subsection \<open>Data model\<close>

text \<open>
  Modelled from the spec: the declarations \<^verbatim>\<open>model/Priority\<close>, \<^verbatim>\<open>model/Category\<close> and
  \<^verbatim>\<open>model/Task\<close> are not among the sources. A priority has an identity, a label and an
  ordering weight; a category an identity and a title; a task an identity, a title, a
  completion flag, a creation timestamp, an optional priority and an optional category.
  The component reads \<^verbatim>\<open>category.id\<close>, \<^verbatim>\<open>category.title\<close>, \<^verbatim>\<open>task.id\<close> and
  \<^verbatim>\<open>task.category\<close> only.

  A JavaScript \<^verbatim>\<open>Map\<close> compares object keys by reference. The field \<open>obj\<close> of a
  category stands for the identity of the object, so that two objects with the same
  id and title are still two different keys.
\<close>

record priority =
  priority_id :: nat
  label :: string
  weight :: int

record category =
  obj :: nat
  category_id :: nat
  title :: string

record task =
  task_id :: nat
  task_title :: string
  completed :: bool
  date :: "nat option"
  priority :: "priority option"
  category :: "category option"

text \<open>
  The fields of the component, in the order of their declaration. A field declared
  without an initialiser is \<^verbatim>\<open>undefined\<close> until it is first written: \<open>None\<close>.
  \<^verbatim>\<open>categoryMap\<close> is a \<^verbatim>\<open>Map<Category, number>\<close>: an association list in insertion
  order, where \<^verbatim>\<open>set\<close> is \<^const>\<open>AList.update\<close> (an existing key keeps its place, a new
  key goes to the end), \<^verbatim>\<open>delete\<close> is \<^const>\<open>AList.delete\<close> and \<^verbatim>\<open>clear\<close> gives \<open>[]\<close>.
\<close>

record AppComponent =
  categoryMap :: "(category \<times> int) list"
  tasks :: "task list option"
  categories :: "category list option"
  priorities :: "priority list option"
  totalTasksCountInCategory :: "int option"
  completedCountInCategory :: "int option"
  uncompletedCountInCategory :: "int option"
  uncompletedTotalTasksCount :: "int option"
  showStat :: bool
  selectedCategory :: "category option"
  searchTaskText :: string
  searchCategoryText :: string
  priorityFilter :: "priority option"
  statusFilter :: "bool option"
  menuOpened :: bool
  menuMode :: string
  menuPosition :: string
  showBackdrop :: bool
  isMobile :: bool
  isTablet :: bool

subsection \<open>The data facade\<close>

text \<open>
  Modelled from the spec: the facade \<^verbatim>\<open>DataHandlerService\<close> is not among the sources. By
  the specification each of its operations completes asynchronously and independently:
  the callback of a subscriber runs in a later turn of the event loop, once, with the
  value of the operation, or never when the operation fails (no subscriber of the
  component passes an error callback). The operations the component calls:
\<close>

datatype request =
    getAllPriorities
  | getAllCategories
  | searchCategories string
  | addCategory string
  | updateCategory category
  | deleteCategory nat
  | searchTasks "category option" string "bool option" "priority option"
  | addTask task
  | updateTask task
  | deleteTask nat
  | getTotalCountInCategory "category option"
  | getCompletedCountInCategory "category option"
  | getUncompletedCountInCategory "category option"
  | getUncompletedTotalCount

datatype response =
    Failed
  | Unit
  | Count int
  | Priorities "priority list"
  | Categories "category list"
  | Tasks "task list"
  | A_Category category
  | A_Task task

text \<open>
  The subscribers of the component, one constructor for each callback in the source:
  \<^item> \<open>ngOnInit_priorities\<close>: \<^verbatim>\<open>priorities => this.priorities = priorities\<close>;
  \<^item> \<open>ngOnInit_categories\<close>: \<^verbatim>\<open>categories => this.categories = categories\<close>;
  \<^item> \<open>onAddCategory_next\<close>: \<^verbatim>\<open>() => this.fillCategories()\<close>;
  \<^item> \<open>fillCategories_next cat\<close>: \<^verbatim>\<open>count => this.categoryMap.set(cat, count)\<close>;
  \<^item> \<open>onSearchCategory_next\<close>, \<open>onDeleteCategory_next\<close>, \<open>onUpdateCategory_next\<close>,
    \<open>onUpdateTask_next\<close>, \<open>updateTasks_next\<close>: the callback given to \<^verbatim>\<open>subscribe\<close> in
    the handler of that name;
  \<^item> \<open>concatMap_project\<close>: the function given to \<^verbatim>\<open>concatMap\<close> in \<^verbatim>\<open>onDeleteTask\<close> and
    in \<^verbatim>\<open>onAddTask\<close> (the same text in both), which subscribes to the count of the
    returned task's category;
  \<^item> \<open>counted_next t\<close>: the callback given to \<^verbatim>\<open>subscribe\<close> in \<^verbatim>\<open>onDeleteTask\<close> and
    \<^verbatim>\<open>onAddTask\<close>, which receives \<^verbatim>\<open>{t, count}\<close>;
  \<^item> \<open>zip_source b i\<close>: source number \<open>i\<close> of the \<^verbatim>\<open>zip\<close> numbered \<open>b\<close>, made by
    \<^verbatim>\<open>updateStat\<close>.
\<close>

datatype subscriber =
    ngOnInit_priorities
  | ngOnInit_categories
  | onAddCategory_next
  | fillCategories_next category
  | onSearchCategory_next
  | onDeleteCategory_next
  | onUpdateCategory_next
  | onUpdateTask_next
  | concatMap_project
  | counted_next task
  | updateTasks_next
  | zip_source nat nat

text \<open>
  The whole state: the component, the requests in flight with their subscribers (in
  the order of issue), and the \<^verbatim>\<open>zip\<close> operators alive, each with the values its four
  sources have given so far. \<open>nextZip\<close> numbers the calls of \<^verbatim>\<open>updateStat\<close>.
\<close>

record sys = AppComponent +
  pending :: "(request \<times> subscriber) list"
  zips :: "(nat \<times> int option list) list"
  nextZip :: nat

datatype error = TypeError

subsection \<open>Array.prototype.sort\<close>

text \<open>
  \<^verbatim>\<open>Array.prototype.sort\<close> with a comparison function is a stable sort (ECMAScript 2019):
  an element goes before the first element that it does not compare greater than.
\<close>

fun insert_by :: "('a \<Rightarrow> 'a \<Rightarrow> int) \<Rightarrow> 'a \<Rightarrow> 'a list \<Rightarrow> 'a list" where
  "insert_by cmp x [] = [x]"
| "insert_by cmp x (y # ys) =
     (if cmp x y \<le> 0 then x # y # ys else y # insert_by cmp x ys)"

definition array_sort :: "('a \<Rightarrow> 'a \<Rightarrow> int) \<Rightarrow> 'a list \<Rightarrow> 'a list" where
  "array_sort cmp xs = foldr (insert_by cmp) xs []"

text \<open>
  \<^verbatim>\<open>String.prototype.localeCompare\<close> depends on the locale of the runtime; it is a
  parameter \<open>lc\<close> of the model. A comparison function is consistent when it orders
  the strings totally, up to the strings it declares equal.
\<close>

definition consistent :: "(string \<Rightarrow> string \<Rightarrow> int) \<Rightarrow> bool" where
  "consistent lc \<longleftrightarrow>
     (\<forall>a b. (lc a b < 0) = (0 < lc b a)) \<and>
     (\<forall>a b c. lc a b \<le> 0 \<longrightarrow> lc b c \<le> 0 \<longrightarrow> lc a c \<le> 0)"

definition by_title :: "(string \<Rightarrow> string \<Rightarrow> int) \<Rightarrow> category \<Rightarrow> category \<Rightarrow> int" where
  "by_title lc a b = lc (title a) (title b)"

subsection \<open>The handlers\<close>

definition issue :: "request \<Rightarrow> subscriber \<Rightarrow> sys \<Rightarrow> sys" where
  "issue q k s = s\<lparr>pending := pending s @ [(q, k)]\<rparr>"

definition updateTasks :: "sys \<Rightarrow> sys" where
  "updateTasks s =
     issue (searchTasks (selectedCategory s) (searchTaskText s) (statusFilter s) (priorityFilter s))
       updateTasks_next s"

definition updateStat :: "sys \<Rightarrow> sys" where
  "updateStat s =
     (let b = nextZip s;
          s0 = s\<lparr>zips := zips s @ [(b, [None, None, None, None])], nextZip := Suc b\<rparr>;
          s1 = issue (getTotalCountInCategory (selectedCategory s)) (zip_source b 0) s0;
          s2 = issue (getCompletedCountInCategory (selectedCategory s)) (zip_source b 1) s1;
          s3 = issue (getUncompletedCountInCategory (selectedCategory s)) (zip_source b 2) s2
      in issue getUncompletedTotalCount (zip_source b 3) s3)"

definition updateTasksAndStat :: "sys \<Rightarrow> sys" where
  "updateTasksAndStat s = updateStat (updateTasks s)"

text \<open>
  \<^verbatim>\<open>fillCategories\<close> clears the map, sorts \<^verbatim>\<open>this.categories\<close> in place and subscribes to
  one count for each category. When \<^verbatim>\<open>this.categories\<close> is still \<^verbatim>\<open>undefined\<close> the call of
  \<^verbatim>\<open>sort\<close> throws, after the map has been cleared: \<open>Inl\<close> with the state at the throw.
\<close>

definition fillCategories :: "(string \<Rightarrow> string \<Rightarrow> int) \<Rightarrow> sys \<Rightarrow> (error \<times> sys) + sys" where
  "fillCategories lc s =
     (let s1 = s\<lparr>categoryMap := []\<rparr>
      in case categories s1 of
           None \<Rightarrow> Inl (TypeError, s1)
         | Some cs \<Rightarrow>
             (let sorted_cs = array_sort (by_title lc) cs;
                  s2 = s1\<lparr>categories := Some sorted_cs\<rparr>
              in Inr (fold (\<lambda>cat. issue (getUncompletedCountInCategory (Some cat))
                                    (fillCategories_next cat)) sorted_cs s2)))"

text \<open>The state a callback leaves behind, whether it returned or threw.\<close>

definition state_after :: "(error \<times> sys) + sys \<Rightarrow> sys" where
  "state_after r = (case r of Inl (e, s) \<Rightarrow> s | Inr s \<Rightarrow> s)"

definition onAddCategory :: "string \<Rightarrow> sys \<Rightarrow> sys" where
  "onAddCategory t s = issue (addCategory t) onAddCategory_next s"

definition onSearchCategory :: "string \<Rightarrow> sys \<Rightarrow> sys" where
  "onSearchCategory t s =
     issue (searchCategories t) onSearchCategory_next (s\<lparr>searchCategoryText := t\<rparr>)"

definition onSelectCategory :: "category option \<Rightarrow> sys \<Rightarrow> sys" where
  "onSelectCategory c s =
     (let s1 = updateTasksAndStat (s\<lparr>selectedCategory := c\<rparr>)
      in if isMobile s1 then s1\<lparr>menuOpened := False\<rparr> else s1)"

text \<open>
  \<^verbatim>\<open>ngOnInit\<close> subscribes to the priorities and to the categories, fills the categories
  and selects the null category. When \<^verbatim>\<open>fillCategories\<close> throws, the selection is not
  reached. The call of the intro service at the end concerns no field of the component
  and is left out.
\<close>

definition ngOnInit :: "(string \<Rightarrow> string \<Rightarrow> int) \<Rightarrow> sys \<Rightarrow> (error \<times> sys) + sys" where
  "ngOnInit lc s =
     (let s1 = issue getAllPriorities ngOnInit_priorities s;
          s2 = issue getAllCategories ngOnInit_categories s1
      in case fillCategories lc s2 of
           Inl (e, s3) \<Rightarrow> Inl (e, s3)
         | Inr s3 \<Rightarrow> Inr (onSelectCategory None s3))"

definition onDeleteCategory :: "category \<Rightarrow> sys \<Rightarrow> sys" where
  "onDeleteCategory c s = issue (deleteCategory (category_id c)) onDeleteCategory_next s"

definition onUpdateCategory :: "category \<Rightarrow> sys \<Rightarrow> sys" where
  "onUpdateCategory c s = issue (updateCategory c) onUpdateCategory_next s"

definition onUpdateTask :: "task \<Rightarrow> sys \<Rightarrow> sys" where
  "onUpdateTask t s = issue (updateTask t) onUpdateTask_next s"

definition onDeleteTask :: "task \<Rightarrow> sys \<Rightarrow> sys" where
  "onDeleteTask t s = issue (deleteTask (task_id t)) concatMap_project s"

definition onSearchTasks :: "string \<Rightarrow> sys \<Rightarrow> sys" where
  "onSearchTasks t s = updateTasks (s\<lparr>searchTaskText := t\<rparr>)"

definition onFilterTasksByStatus :: "bool option \<Rightarrow> sys \<Rightarrow> sys" where
  "onFilterTasksByStatus st s = updateTasks (s\<lparr>statusFilter := st\<rparr>)"

definition onFilterTasksByPriority :: "priority option \<Rightarrow> sys \<Rightarrow> sys" where
  "onFilterTasksByPriority p s = updateTasks (s\<lparr>priorityFilter := p\<rparr>)"

definition onAddTask :: "task \<Rightarrow> sys \<Rightarrow> sys" where
  "onAddTask t s = issue (addTask t) concatMap_project s"

definition toggleStat :: "bool \<Rightarrow> sys \<Rightarrow> sys" where
  "toggleStat b s = s\<lparr>showStat := b\<rparr>"

definition onClosedMenu :: "sys \<Rightarrow> sys" where
  "onClosedMenu s = s\<lparr>menuOpened := False\<rparr>"

definition toggleMenu :: "sys \<Rightarrow> sys" where
  "toggleMenu s = s\<lparr>menuOpened := \<not> menuOpened s\<rparr>"

subsection \<open>The callbacks\<close>

text \<open>
  \<open>zip_next b i n s\<close>: source \<open>i\<close> of the \<^verbatim>\<open>zip\<close> numbered \<open>b\<close> gives the value \<open>n\<close>. The
  operator keeps the value until each of its four sources has given one; then it
  emits the array of the four, the callback of \<^verbatim>\<open>updateStat\<close> writes the four
  statistics fields, and the operator completes. A \<^verbatim>\<open>zip\<close> that has failed or completed
  has unsubscribed from its sources: their values are dropped.
\<close>

definition zip_next :: "nat \<Rightarrow> nat \<Rightarrow> int \<Rightarrow> sys \<Rightarrow> sys" where
  "zip_next b i n s =
     (case map_of (zips s) b of
        None \<Rightarrow> s
      | Some slots \<Rightarrow>
          (case slots[i := Some n] of
             [Some a0, Some a1, Some a2, Some a3] \<Rightarrow>
               s\<lparr>totalTasksCountInCategory := Some a0,
                 completedCountInCategory := Some a1,
                 uncompletedCountInCategory := Some a2,
                 uncompletedTotalTasksCount := Some a3,
                 zips := AList.delete b (zips s)\<rparr>
           | slots' \<Rightarrow> s\<lparr>zips := AList.update b slots' (zips s)\<rparr>))"

text \<open>
  A failed operation runs no callback of the component. A failed source of a \<^verbatim>\<open>zip\<close>
  makes the \<^verbatim>\<open>zip\<close> fail; a failed \<^verbatim>\<open>deleteTask\<close> or \<^verbatim>\<open>addTask\<close> ends the chain before
  \<^verbatim>\<open>concatMap\<close> subscribes to the count.
\<close>

fun failed :: "subscriber \<Rightarrow> sys \<Rightarrow> sys" where
  "failed (zip_source b i) s = s\<lparr>zips := AList.delete b (zips s)\<rparr>"
| "failed k s = s"

text \<open>
  \<open>react lc k r s\<close> runs the subscriber \<open>k\<close> on the response \<open>r\<close>. The result is \<open>None\<close>
  when the response is not of the type the subscriber is declared for, which the
  type checker of TypeScript excludes.
\<close>

fun react :: "(string \<Rightarrow> string \<Rightarrow> int) \<Rightarrow> subscriber \<Rightarrow> response \<Rightarrow> sys \<Rightarrow> sys option" where
  "react lc k Failed s = Some (failed k s)"
| "react lc ngOnInit_priorities (Priorities ps) s = Some (s\<lparr>priorities := Some ps\<rparr>)"
| "react lc ngOnInit_categories (Categories cs) s = Some (s\<lparr>categories := Some cs\<rparr>)"
| "react lc onAddCategory_next r s = Some (state_after (fillCategories lc s))"
| "react lc (fillCategories_next cat) (Count n) s =
     Some (s\<lparr>categoryMap := AList.update cat n (categoryMap s)\<rparr>)"
| "react lc onSearchCategory_next (Categories cs) s =
     Some (state_after (fillCategories lc (s\<lparr>categories := Some cs\<rparr>)))"
| "react lc onDeleteCategory_next (A_Category cat) s =
     (let s1 = s\<lparr>selectedCategory := None\<rparr>;
          s2 = s1\<lparr>categoryMap := AList.delete cat (categoryMap s1)\<rparr>;
          s3 = onSearchCategory (searchCategoryText s2) s2
      in Some (updateTasks s3))"
| "react lc onUpdateCategory_next r s = Some (onSearchCategory (searchCategoryText s) s)"
| "react lc onUpdateTask_next r s =
     (case fillCategories lc s of
        Inl (e, s1) \<Rightarrow> Some s1
      | Inr s1 \<Rightarrow> Some (updateTasksAndStat s1))"
| "react lc concatMap_project (A_Task t) s =
     Some (issue (getUncompletedCountInCategory (category t)) (counted_next t) s)"
| "react lc (counted_next t) (Count n) s =
     (let s1 = (case category t of
                  Some c \<Rightarrow> s\<lparr>categoryMap := AList.update c n (categoryMap s)\<rparr>
                | None \<Rightarrow> s)
      in Some (updateTasksAndStat s1))"
| "react lc updateTasks_next (Tasks ts) s = Some (s\<lparr>tasks := Some ts\<rparr>)"
| "react lc (zip_source b i) (Count n) s = Some (zip_next b i n s)"
| "react lc k r s = None"

text \<open>
  \<open>deliver lc i r s\<close>: the request at position \<open>i\<close> of the pending list completes with
  the response \<open>r\<close>. It leaves the list and its subscriber runs.
\<close>

definition deliver :: "(string \<Rightarrow> string \<Rightarrow> int) \<Rightarrow> nat \<Rightarrow> response \<Rightarrow> sys \<Rightarrow> sys option" where
  "deliver lc i r s =
     (if i < length (pending s)
      then react lc (snd (pending s ! i)) r
             (s\<lparr>pending := take i (pending s) @ drop (Suc i) (pending s)\<rparr>)
      else None)"

subsection \<open>Runs\<close>

text \<open>
  An event is one turn of the event loop: a handler called by the presentation layer,
  or the completion of a pending request.
\<close>

datatype event =
    Init
  | AddCategory string
  | SearchCategory string
  | SelectCategory "category option"
  | DeleteCategory category
  | UpdateCategory category
  | UpdateTask task
  | DeleteTask task
  | SearchTasks string
  | FilterTasksByStatus "bool option"
  | FilterTasksByPriority "priority option"
  | AddTask task
  | ToggleStat bool
  | ClosedMenu
  | ToggleMenu
  | Deliver nat response

fun step :: "(string \<Rightarrow> string \<Rightarrow> int) \<Rightarrow> event \<Rightarrow> sys \<Rightarrow> sys option" where
  "step lc Init s = Some (state_after (ngOnInit lc s))"
| "step lc (AddCategory t) s = Some (onAddCategory t s)"
| "step lc (SearchCategory t) s = Some (onSearchCategory t s)"
| "step lc (SelectCategory c) s = Some (onSelectCategory c s)"
| "step lc (DeleteCategory c) s = Some (onDeleteCategory c s)"
| "step lc (UpdateCategory c) s = Some (onUpdateCategory c s)"
| "step lc (UpdateTask t) s = Some (onUpdateTask t s)"
| "step lc (DeleteTask t) s = Some (onDeleteTask t s)"
| "step lc (SearchTasks t) s = Some (onSearchTasks t s)"
| "step lc (FilterTasksByStatus st) s = Some (onFilterTasksByStatus st s)"
| "step lc (FilterTasksByPriority p) s = Some (onFilterTasksByPriority p s)"
| "step lc (AddTask t) s = Some (onAddTask t s)"
| "step lc (ToggleStat b) s = Some (toggleStat b s)"
| "step lc ClosedMenu s = Some (onClosedMenu s)"
| "step lc ToggleMenu s = Some (toggleMenu s)"
| "step lc (Deliver i r) s = deliver lc i r s"

fun run :: "(string \<Rightarrow> string \<Rightarrow> int) \<Rightarrow> event list \<Rightarrow> sys \<Rightarrow> sys option" where
  "run lc [] s = Some s"
| "run lc (e # es) s = (case step lc e s of None \<Rightarrow> None | Some s1 \<Rightarrow> run lc es s1)"

text \<open>
  The state the constructor leaves: the initialisers of the fields, the device class
  it is given, and the menu settings of \<^verbatim>\<open>setMenuValues\<close>.
\<close>

definition constructed :: "bool \<Rightarrow> bool \<Rightarrow> sys" where
  "constructed mobile tablet =
     \<lparr>categoryMap = [], tasks = None, categories = None, priorities = None,
      totalTasksCountInCategory = None, completedCountInCategory = None,
      uncompletedCountInCategory = None, uncompletedTotalTasksCount = None,
      showStat = \<not> mobile, selectedCategory = None,
      searchTaskText = [], searchCategoryText = [],
      priorityFilter = None, statusFilter = None,
      menuOpened = \<not> mobile,
      menuMode = (if mobile then ''over'' else ''push''),
      menuPosition = ''left'',
      showBackdrop = mobile,
      isMobile = mobile, isTablet = tablet,
      pending = [], zips = [], nextZip = 0\<rparr>"

subsection \<open>Example data\<close>

text \<open>
  A comparison function to run the model with: the strings are compared code unit by
  code unit, as the locale \<^verbatim>\<open>C\<close> does.
\<close>

fun codeunit_compare :: "string \<Rightarrow> string \<Rightarrow> int" where
  "codeunit_compare [] [] = 0"
| "codeunit_compare [] (y # ys) = - 1"
| "codeunit_compare (x # xs) [] = 1"
| "codeunit_compare (x # xs) (y # ys) =
     (if (of_char x :: nat) < of_char y then - 1
      else if (of_char y :: nat) < of_char x then 1
      else codeunit_compare xs ys)"

definition work :: category where
  "work = \<lparr>obj = 1, category_id = 1, title = ''Work''\<rparr>"

definition home :: category where
  "home = \<lparr>obj = 2, category_id = 2, title = ''Home''\<rparr>"

definition home2 :: category where
  "home2 = \<lparr>obj = 3, category_id = 3, title = ''Home''\<rparr>"

definition report :: task where
  "report = \<lparr>task_id = 7, task_title = ''Write the report'', completed = False,
              date = None, priority = None, category = Some work\<rparr>"

definition memo :: task where
  "memo = \<lparr>task_id = 8, task_title = ''A memo'', completed = False,
            date = None, priority = None, category = None\<rparr>"

definition desktop :: sys where
  "desktop = constructed False False"

text \<open>A state in which the category \<open>work\<close> is selected and two categories are counted.\<close>

definition viewing_work :: sys where
  "viewing_work = desktop\<lparr>categoryMap := [(work, 3), (home, 1)], selectedCategory := Some work,
                           searchCategoryText := ''o''\<rparr>"

text \<open>
  A state in which the first statistics recompute has three of its four counts: the
  task search and the global count are still pending.
\<close>

definition three_counted :: sys where
  "three_counted =
     desktop\<lparr>pending := [(searchTasks None [] None None, updateTasks_next),
                         (getUncompletedTotalCount, zip_source 0 3)],
             zips := [(0, [Some 5, Some 2, Some 3, None])],
             nextZip := 1\<rparr>"

text \<open>
  A state in which the recompute for \<open>work\<close> has three of its four counts and a
  recompute for \<open>home\<close> has been issued after it.
\<close>

definition late_work :: sys where
  "late_work =
     desktop\<lparr>selectedCategory := Some home,
             pending := [(searchTasks (Some work) [] None None, updateTasks_next),
                         (getUncompletedTotalCount, zip_source 0 3),
                         (searchTasks (Some home) [] None None, updateTasks_next),
                         (getTotalCountInCategory (Some home), zip_source 1 0),
                         (getCompletedCountInCategory (Some home), zip_source 1 1),
                         (getUncompletedCountInCategory (Some home), zip_source 1 2),
                         (getUncompletedTotalCount, zip_source 1 3)],
             zips := [(0, [Some 3, Some 1, Some 2, None]), (1, [None, None, None, None])],
             nextZip := 2\<rparr>"

text \<open>The four statistics fields as one tuple.\<close>

definition stat :: "sys \<Rightarrow> int option \<times> int option \<times> int option \<times> int option" where
  "stat s = (totalTasksCountInCategory s, completedCountInCategory s,
             uncompletedCountInCategory s, uncompletedTotalTasksCount s)"

text \<open>What the presentation layer shows of the selection and the statistics.\<close>

definition shown :: "sys \<Rightarrow> category option \<times> int option \<times> int option \<times> int option \<times> int option" where
  "shown s = (selectedCategory s, stat s)"

text \<open>
  \<open>ids_below n ps\<close>: every source of a \<^verbatim>\<open>zip\<close> in the pending list \<open>ps\<close> belongs to a
  \<^verbatim>\<open>zip\<close> numbered below \<open>n\<close>, that is, to a call of \<^verbatim>\<open>updateStat\<close> that has been made.
\<close>

fun zip_below :: "nat \<Rightarrow> subscriber \<Rightarrow> bool" where
  "zip_below n (zip_source b m) = (b < n)"
| "zip_below n k = True"

definition ids_below :: "nat \<Rightarrow> (request \<times> subscriber) list \<Rightarrow> bool" where
  "ids_below n ps = list_all (\<lambda>p. zip_below n (snd p)) ps"

subsection \<open>What a run has answered to a zip\<close>

text \<open>
  The four queries of one statistics recompute for the category \<open>c\<close>, in the order of
  the sources of its \<^verbatim>\<open>zip\<close>.
\<close>

definition statQueries :: "category option \<Rightarrow> request list" where
  "statQueries c =
     [getTotalCountInCategory c, getCompletedCountInCategory c,
      getUncompletedCountInCategory c, getUncompletedTotalCount]"

fun source_of :: "nat \<Rightarrow> subscriber \<Rightarrow> nat option" where
  "source_of b (zip_source b' m) = (if b' = b then Some m else None)"
| "source_of b k = None"

text \<open>
  \<open>observe b e s h\<close> reads off the event \<open>e\<close>, which happens in the state \<open>s\<close>, what
  it tells about the \<^verbatim>\<open>zip\<close> numbered \<open>b\<close>, and adds it to the record \<open>h\<close>: when \<open>e\<close>
  completes the request of source \<open>m\<close> of that \<^verbatim>\<open>zip\<close> with a count, place \<open>m\<close> of the
  record takes the request and the count; when it completes such a request with a
  failure, the flag of the record is set. The record is made from the events alone: it
  does not look at the field \<open>zips\<close> of the state. \<open>history\<close> is the record of a whole
  run.
\<close>

type_synonym answers = "(request \<times> int) option list \<times> bool"

fun observe :: "nat \<Rightarrow> event \<Rightarrow> sys \<Rightarrow> answers \<Rightarrow> answers" where
  "observe b (Deliver i (Count n)) s (ans, fl) =
     (if i < length (pending s)
      then (case source_of b (snd (pending s ! i)) of
              Some m \<Rightarrow> (ans[m := Some (fst (pending s ! i), n)], fl)
            | None \<Rightarrow> (ans, fl))
      else (ans, fl))"
| "observe b (Deliver i Failed) s (ans, fl) =
     (if i < length (pending s)
      then (case source_of b (snd (pending s ! i)) of
              Some m \<Rightarrow> (ans, True)
            | None \<Rightarrow> (ans, fl))
      else (ans, fl))"
| "observe b e s h = h"

fun history :: "(string \<Rightarrow> string \<Rightarrow> int) \<Rightarrow> nat \<Rightarrow> event list \<Rightarrow> sys \<Rightarrow> answers \<Rightarrow> answers" where
  "history lc b [] s h = h"
| "history lc b (e # es) s h =
     (case step lc e s of
        None \<Rightarrow> h
      | Some s1 \<Rightarrow> history lc b es s1 (observe b e s h))"

definition unanswered :: answers where
  "unanswered = ([None, None, None, None], False)"

text \<open>
  \<open>grows s s'\<close>: from \<open>s\<close> to \<open>s'\<close> the pending list has got new requests at its end
  and, either no \<^verbatim>\<open>zip\<close> has changed and no new request is a source of a \<^verbatim>\<open>zip\<close>, or one
  \<^verbatim>\<open>zip\<close> with four empty places has been made and the new sources are the four queries
  of one category for that \<^verbatim>\<open>zip\<close>.
\<close>

definition grows :: "sys \<Rightarrow> sys \<Rightarrow> bool" where
  "grows s s' \<longleftrightarrow>
     (\<exists>new. pending s' = pending s @ new \<and>
        ((zips s' = zips s \<and> nextZip s' = nextZip s \<and>
          (\<forall>p \<in> set new. \<forall>b m. snd p \<noteq> zip_source b m))
       \<or> (\<exists>c. zips s' = zips s @ [(nextZip s, [None, None, None, None])] \<and>
               nextZip s' = Suc (nextZip s) \<and>
               (\<forall>p \<in> set new. \<forall>b m. snd p = zip_source b m \<longrightarrow>
                   b = nextZip s \<and> m < 4 \<and> fst p = statQueries c ! m))))"

text \<open>\<open>all_answered xs\<close>: every place of \<open>xs\<close> holds a value.\<close>

definition all_answered :: "'a option list \<Rightarrow> bool" where
  "all_answered xs = list_all (\<lambda>x. x \<noteq> None) xs"

text \<open>
  \<open>zip_inv b s h\<close>: what the state \<open>s\<close> holds of the \<^verbatim>\<open>zip\<close> numbered \<open>b\<close> is what the
  record \<open>h\<close> tells. Before the \<^verbatim>\<open>zip\<close> is made nothing is recorded; once it is made it is
  alive, with the counts recorded as the values of its places, until a source has
  failed or all four have answered. The requests of its sources, pending or answered,
  are the four queries of one category.
\<close>

definition zip_inv :: "nat \<Rightarrow> sys \<Rightarrow> answers \<Rightarrow> bool" where
  "zip_inv b s h \<longleftrightarrow>
     length (fst h) = 4 \<and>
     ids_below (nextZip s) (pending s) \<and>
     (b < nextZip s \<longrightarrow>
        map_of (zips s) b =
          (if snd h \<or> all_answered (fst h) then None
           else Some (map (map_option snd) (fst h)))) \<and>
     (nextZip s \<le> b \<longrightarrow>
        map_of (zips s) b = None \<and> fst h = [None, None, None, None] \<and> \<not> snd h) \<and>
     (\<exists>c. (\<forall>p \<in> set (pending s). \<forall>m. source_of b (snd p) = Some m \<longrightarrow>
               m < 4 \<and> fst p = statQueries c ! m) \<and>
          (\<forall>m q n. m < 4 \<longrightarrow> fst h ! m = Some (q, n) \<longrightarrow> q = statQueries c ! m))"

section \<open>Properties\<close>

lemmas handler_defs = onSearchTasks_def onFilterTasksByStatus_def onFilterTasksByPriority_def
  onSelectCategory_def updateTasks_def updateStat_def updateTasksAndStat_def issue_def
  onAddTask_def onDeleteTask_def onDeleteCategory_def onSearchCategory_def
  onAddCategory_def onUpdateCategory_def onUpdateTask_def toggleStat_def onClosedMenu_def
  toggleMenu_def

lemmas example_defs = desktop_def constructed_def work_def home_def home2_def report_def memo_def
  viewing_work_def three_counted_def late_work_def

subsection \<open>Filter changes\<close>

text \<open>
  Claim C1, as stated: every change of one of the four filters issues a task-list
  refresh and a statistics recompute. It fails for the task search text (and for the
  status and priority filters): \<^verbatim>\<open>onSearchTasks\<close> calls \<^verbatim>\<open>updateTasks\<close>, not
  \<^verbatim>\<open>updateTasksAndStat\<close>. On the freshly constructed component the search for
  \<open>''milk''\<close> leaves one pending request, the task search, and no \<^verbatim>\<open>zip\<close>.
\<close>

theorem onSearchTasks_issues_no_statistics:
  "onSearchTasks ''milk'' desktop =
     desktop\<lparr>searchTaskText := ''milk'',
             pending := [(searchTasks None ''milk'' None None, updateTasks_next)]\<rparr>"
  by (simp add: handler_defs example_defs)

text \<open>
  Claim C1, amended: selecting a category issues a task-list refresh and the four
  statistics queries for the new selected category; changing the task search text, the
  status filter or the priority filter issues a task-list refresh with the new filter
  values and nothing else; none of the four changes the category map.
\<close>

theorem filter_change_requests:
  "pending (onSelectCategory c s) = pending s @
      [(searchTasks c (searchTaskText s) (statusFilter s) (priorityFilter s), updateTasks_next),
       (getTotalCountInCategory c, zip_source (nextZip s) 0),
       (getCompletedCountInCategory c, zip_source (nextZip s) 1),
       (getUncompletedCountInCategory c, zip_source (nextZip s) 2),
       (getUncompletedTotalCount, zip_source (nextZip s) 3)]
   \<and> pending (onSearchTasks t s) = pending s @
      [(searchTasks (selectedCategory s) t (statusFilter s) (priorityFilter s), updateTasks_next)]
   \<and> pending (onFilterTasksByStatus st s) = pending s @
      [(searchTasks (selectedCategory s) (searchTaskText s) st (priorityFilter s), updateTasks_next)]
   \<and> pending (onFilterTasksByPriority p s) = pending s @
      [(searchTasks (selectedCategory s) (searchTaskText s) (statusFilter s) p, updateTasks_next)]
   \<and> categoryMap (onSelectCategory c s) = categoryMap s
   \<and> categoryMap (onSearchTasks t s) = categoryMap s
   \<and> categoryMap (onFilterTasksByStatus st s) = categoryMap s
   \<and> categoryMap (onFilterTasksByPriority p s) = categoryMap s"
  by (simp add: handler_defs Let_def)

text \<open>
  Claim C9: changing the task search text, the status filter or the priority filter
  writes that one field and subscribes to one task search; when the search completes
  (in any state \<open>u\<close> where it is pending, at any position \<open>i\<close>) its callback writes the
  task list only, and when it fails nothing is written. The category map, the selected
  category, the other filters and the four statistics fields stay as they are.
\<close>

theorem task_filter_frame:
  assumes "i < length (pending u)" and "snd (pending u ! i) = updateTasks_next"
  shows "onSearchTasks t s = s\<lparr>searchTaskText := t,
            pending := pending s @ [(searchTasks (selectedCategory s) t (statusFilter s)
                                       (priorityFilter s), updateTasks_next)]\<rparr>
       \<and> onFilterTasksByStatus st s = s\<lparr>statusFilter := st,
            pending := pending s @ [(searchTasks (selectedCategory s) (searchTaskText s) st
                                       (priorityFilter s), updateTasks_next)]\<rparr>
       \<and> onFilterTasksByPriority p s = s\<lparr>priorityFilter := p,
            pending := pending s @ [(searchTasks (selectedCategory s) (searchTaskText s)
                                       (statusFilter s) p, updateTasks_next)]\<rparr>
       \<and> deliver lc i (Tasks ts) u =
            Some (u\<lparr>tasks := Some ts,
                     pending := take i (pending u) @ drop (Suc i) (pending u)\<rparr>)
       \<and> deliver lc i Failed u =
            Some (u\<lparr>pending := take i (pending u) @ drop (Suc i) (pending u)\<rparr>)"
  using assms by (simp add: handler_defs deliver_def)

theorem task_filter_frame_witness:
  "0 < length (pending (onSearchTasks ''milk'' desktop))
   \<and> snd (pending (onSearchTasks ''milk'' desktop) ! 0) = updateTasks_next
   \<and> deliver codeunit_compare 0 (Tasks [memo]) (onSearchTasks ''milk'' desktop) =
       Some (desktop\<lparr>searchTaskText := ''milk'', tasks := Some [memo]\<rparr>)"
  using task_filter_frame [where i = 0 and u = "onSearchTasks ''milk'' desktop"
      and lc = codeunit_compare and ts = "[memo]"]
  by (simp add: handler_defs example_defs)

subsection \<open>Adding and deleting a task\<close>

text \<open>
  Claim C2, as stated: the recount is skipped when the created task has no category.
  It is not: \<^verbatim>\<open>concatMap\<close> subscribes to \<^verbatim>\<open>getUncompletedCountInCategory(task.category)\<close>
  whatever the category is. Adding the task \<open>memo\<close>, which has no category, to the
  freshly constructed component and confirming it leaves the count for the null
  category pending.
\<close>

theorem uncategorised_task_is_recounted:
  "deliver codeunit_compare 0 (A_Task memo) (onAddTask memo desktop) =
     Some (desktop\<lparr>pending := [(getUncompletedCountInCategory None, counted_next memo)]\<rparr>)"
  by (simp add: handler_defs example_defs deliver_def)

text \<open>
  Claim C2, amended: the add-task handler issues the create and nothing else; when the
  created task \<open>t'\<close> is returned (in any state \<open>u\<close> where the create is pending) the
  count of uncompleted tasks of the category of \<open>t'\<close> is issued, also when \<open>t'\<close> has no
  category; when that count resolves (in any state \<open>v\<close> where it is pending) it is
  written to the category map by one \<^verbatim>\<open>set\<close> if \<open>t'\<close> has a category and dropped
  otherwise, and the task list and the statistics are refreshed, which leaves the map
  as it is.
\<close>

theorem add_task_chain:
  assumes "i < length (pending u)" and "pending u ! i = (addTask t, concatMap_project)"
    and "j < length (pending v)" and "snd (pending v ! j) = counted_next t'"
  shows "onAddTask t s = s\<lparr>pending := pending s @ [(addTask t, concatMap_project)]\<rparr>
       \<and> deliver lc i (A_Task t') u =
           Some (u\<lparr>pending := take i (pending u) @ drop (Suc i) (pending u) @
                      [(getUncompletedCountInCategory (category t'), counted_next t')]\<rparr>)
       \<and> deliver lc j (Count n) v =
           Some (updateTasksAndStat
                  (v\<lparr>categoryMap := (case category t' of
                                        Some c \<Rightarrow> AList.update c n (categoryMap v)
                                      | None \<Rightarrow> categoryMap v),
                     pending := take j (pending v) @ drop (Suc j) (pending v)\<rparr>))
       \<and> categoryMap (updateTasksAndStat w) = categoryMap w"
  using assms by (simp add: handler_defs deliver_def Let_def split: option.splits)

theorem add_task_chain_witness:
  "0 < length (pending (onAddTask report desktop))
   \<and> pending (onAddTask report desktop) ! 0 = (addTask report, concatMap_project)
   \<and> deliver codeunit_compare 0 (A_Task report) (onAddTask report desktop) =
       Some (desktop\<lparr>pending := [(getUncompletedCountInCategory (Some work), counted_next report)]\<rparr>)
   \<and> deliver codeunit_compare 0 (Count 4)
        (desktop\<lparr>pending := [(getUncompletedCountInCategory (Some work), counted_next report)]\<rparr>) =
       Some (updateTasksAndStat (desktop\<lparr>categoryMap := [(work, 4)]\<rparr>))"
  using add_task_chain [where i = 0 and u = "onAddTask report desktop" and t = report
      and t' = report and j = 0 and lc = codeunit_compare and n = 4
      and v = "desktop\<lparr>pending := [(getUncompletedCountInCategory (Some work), counted_next report)]\<rparr>"]
  by (simp add: handler_defs example_defs)

text \<open>
  Claim C3, as stated: the task-list refresh and the statistics recompute proceed
  independently of the chain of delete and recount. They do not: \<^verbatim>\<open>updateTasksAndStat\<close>
  is called in the callback that receives the count. After the confirmation of the
  delete only the count is pending, and when the count fails nothing is pending any
  more: no refresh and no statistics query has been issued.
\<close>

theorem failed_recount_stops_refresh:
  "run codeunit_compare [DeleteTask report, Deliver 0 (A_Task report)] desktop =
     Some (desktop\<lparr>pending := [(getUncompletedCountInCategory (Some work), counted_next report)]\<rparr>)
   \<and> run codeunit_compare [DeleteTask report, Deliver 0 (A_Task report), Deliver 0 Failed] desktop =
     Some desktop"
  by (simp add: handler_defs example_defs deliver_def)

text \<open>
  Claim C3, amended: the delete-task handler issues the delete and nothing else; the
  count of the category is issued when the delete is confirmed, and not at all when
  the delete fails, so the count written to the category map was asked for after the
  delete; the task-list refresh and the four statistics queries are issued by the
  callback that receives the count, and not at all when the count fails.
\<close>

theorem delete_task_chain:
  assumes "i < length (pending u)" and "pending u ! i = (deleteTask d, concatMap_project)"
    and "j < length (pending v)" and "snd (pending v ! j) = counted_next t'"
  shows "onDeleteTask t s = s\<lparr>pending := pending s @ [(deleteTask (task_id t), concatMap_project)]\<rparr>
       \<and> deliver lc i (A_Task t') u =
           Some (u\<lparr>pending := take i (pending u) @ drop (Suc i) (pending u) @
                      [(getUncompletedCountInCategory (category t'), counted_next t')]\<rparr>)
       \<and> deliver lc i Failed u =
           Some (u\<lparr>pending := take i (pending u) @ drop (Suc i) (pending u)\<rparr>)
       \<and> deliver lc j (Count n) v =
           Some (updateTasksAndStat
                  (v\<lparr>categoryMap := (case category t' of
                                        Some c \<Rightarrow> AList.update c n (categoryMap v)
                                      | None \<Rightarrow> categoryMap v),
                     pending := take j (pending v) @ drop (Suc j) (pending v)\<rparr>))
       \<and> deliver lc j Failed v =
           Some (v\<lparr>pending := take j (pending v) @ drop (Suc j) (pending v)\<rparr>)
       \<and> pending (updateTasksAndStat w) = pending w @
           [(searchTasks (selectedCategory w) (searchTaskText w) (statusFilter w) (priorityFilter w),
             updateTasks_next),
            (getTotalCountInCategory (selectedCategory w), zip_source (nextZip w) 0),
            (getCompletedCountInCategory (selectedCategory w), zip_source (nextZip w) 1),
            (getUncompletedCountInCategory (selectedCategory w), zip_source (nextZip w) 2),
            (getUncompletedTotalCount, zip_source (nextZip w) 3)]"
  using assms by (simp add: handler_defs deliver_def Let_def split: option.splits)

theorem delete_task_chain_witness:
  "0 < length (pending (onDeleteTask report desktop))
   \<and> pending (onDeleteTask report desktop) ! 0 = (deleteTask 7, concatMap_project)
   \<and> deliver codeunit_compare 0 (A_Task report) (onDeleteTask report desktop) =
       Some (desktop\<lparr>pending := [(getUncompletedCountInCategory (Some work), counted_next report)]\<rparr>)
   \<and> deliver codeunit_compare 0 (Count 2)
        (desktop\<lparr>pending := [(getUncompletedCountInCategory (Some work), counted_next report)]\<rparr>) =
       Some (updateTasksAndStat (desktop\<lparr>categoryMap := [(work, 2)]\<rparr>))"
  using delete_task_chain [where i = 0 and u = "onDeleteTask report desktop" and d = 7
      and t' = report and j = 0 and lc = codeunit_compare and n = 2
      and v = "desktop\<lparr>pending := [(getUncompletedCountInCategory (Some work), counted_next report)]\<rparr>"]
  by (simp add: handler_defs example_defs)

subsection \<open>Deleting a category\<close>

text \<open>
  Claim C6: the delete-category handler issues the delete; when the facade confirms it
  with the deleted category \<open>cat\<close> (in any state \<open>u\<close> where the delete is pending), the
  callback sets the selected category to null, removes the one entry of \<open>cat\<close> from the
  category map and keeps every other entry, searches the categories again with the
  search text as it is, and refreshes the task list for the null category.
\<close>

theorem delete_category_confirmed:
  assumes "i < length (pending u)" and "snd (pending u ! i) = onDeleteCategory_next"
  shows "onDeleteCategory c s =
           s\<lparr>pending := pending s @ [(deleteCategory (category_id c), onDeleteCategory_next)]\<rparr>
       \<and> deliver lc i (A_Category cat) u =
           Some (u\<lparr>selectedCategory := None,
                    categoryMap := AList.delete cat (categoryMap u),
                    pending := take i (pending u) @ drop (Suc i) (pending u) @
                      [(searchCategories (searchCategoryText u), onSearchCategory_next),
                       (searchTasks None (searchTaskText u) (statusFilter u) (priorityFilter u),
                        updateTasks_next)]\<rparr>)
       \<and> map_of (AList.delete cat (categoryMap u)) cat = None
       \<and> (\<forall>c'. c' \<noteq> cat \<longrightarrow>
             map_of (AList.delete cat (categoryMap u)) c' = map_of (categoryMap u) c')"
  using assms by (simp add: handler_defs deliver_def Let_def delete_conv)

theorem delete_category_confirmed_witness:
  "0 < length (pending (onDeleteCategory work viewing_work))
   \<and> snd (pending (onDeleteCategory work viewing_work) ! 0) = onDeleteCategory_next
   \<and> deliver codeunit_compare 0 (A_Category work) (onDeleteCategory work viewing_work) =
       Some (viewing_work\<lparr>selectedCategory := None, categoryMap := [(home, 1)],
               pending := [(searchCategories ''o'', onSearchCategory_next),
                           (searchTasks None [] None None, updateTasks_next)]\<rparr>)"
  using delete_category_confirmed [where i = 0 and u = "onDeleteCategory work viewing_work"
      and lc = codeunit_compare and cat = work]
  by (simp add: handler_defs example_defs AList.delete_eq)

subsection \<open>A task without a category\<close>

text \<open>
  Claim C10: when the task \<open>t'\<close> returned by the facade has no category, neither the
  add-task nor the delete-task handler, nor the confirmation, nor the count changes the
  category map. The count for the null category is issued at the confirmation all the
  same, and its value \<open>n\<close> is dropped: the state after the count does not depend on it.
\<close>

theorem uncategorised_task_keeps_index:
  assumes "i < length (pending u)" and "snd (pending u ! i) = concatMap_project"
    and "category t' = None"
    and "j < length (pending v)" and "snd (pending v ! j) = counted_next t'"
  shows "categoryMap (onAddTask t s) = categoryMap s
       \<and> categoryMap (onDeleteTask t s) = categoryMap s
       \<and> deliver lc i (A_Task t') u =
           Some (u\<lparr>pending := take i (pending u) @ drop (Suc i) (pending u) @
                      [(getUncompletedCountInCategory None, counted_next t')]\<rparr>)
       \<and> deliver lc j (Count n) v =
           Some (updateTasksAndStat (v\<lparr>pending := take j (pending v) @ drop (Suc j) (pending v)\<rparr>))
       \<and> categoryMap (updateTasksAndStat
            (v\<lparr>pending := take j (pending v) @ drop (Suc j) (pending v)\<rparr>)) = categoryMap v"
  using assms by (simp add: handler_defs deliver_def Let_def)

theorem uncategorised_task_keeps_index_witness:
  "0 < length (pending (onAddTask memo viewing_work))
   \<and> snd (pending (onAddTask memo viewing_work) ! 0) = concatMap_project
   \<and> category memo = None
   \<and> deliver codeunit_compare 0 (A_Task memo) (onAddTask memo viewing_work) =
       Some (viewing_work\<lparr>pending := [(getUncompletedCountInCategory None, counted_next memo)]\<rparr>)
   \<and> deliver codeunit_compare 0 (Count 5)
        (viewing_work\<lparr>pending := [(getUncompletedCountInCategory None, counted_next memo)]\<rparr>) =
       Some (updateTasksAndStat viewing_work)
   \<and> categoryMap (updateTasksAndStat viewing_work) = [(work, 3), (home, 1)]"
  using uncategorised_task_keeps_index [where i = 0 and u = "onAddTask memo viewing_work"
      and t' = memo and j = 0 and lc = codeunit_compare and n = 5
      and v = "viewing_work\<lparr>pending := [(getUncompletedCountInCategory None, counted_next memo)]\<rparr>"]
  by (simp add: handler_defs example_defs)

subsection \<open>What a callback leaves of the statistics\<close>

lemma fold_issue:
  "fold (\<lambda>x. issue (f x) (g x)) xs s = s\<lparr>pending := pending s @ map (\<lambda>x. (f x, g x)) xs\<rparr>"
  by (induction xs arbitrary: s) (simp_all add: issue_def)

lemma fillCategories_Some:
  "categories s = Some cs \<Longrightarrow>
   fillCategories lc s =
     Inr (s\<lparr>categoryMap := [], categories := Some (array_sort (by_title lc) cs),
            pending := pending s @
              map (\<lambda>cat. (getUncompletedCountInCategory (Some cat), fillCategories_next cat))
                (array_sort (by_title lc) cs)\<rparr>)"
  by (simp add: fillCategories_def Let_def fold_issue)

lemma fillCategories_None:
  "categories s = None \<Longrightarrow> fillCategories lc s = Inl (TypeError, s\<lparr>categoryMap := []\<rparr>)"
  by (simp add: fillCategories_def Let_def)

lemma ngOnInit_Some:
  "categories s = Some cs \<Longrightarrow>
   state_after (ngOnInit lc s) =
     onSelectCategory None
       (s\<lparr>categoryMap := [], categories := Some (array_sort (by_title lc) cs),
          pending := pending s @
            [(getAllPriorities, ngOnInit_priorities), (getAllCategories, ngOnInit_categories)] @
            map (\<lambda>cat. (getUncompletedCountInCategory (Some cat), fillCategories_next cat))
              (array_sort (by_title lc) cs)\<rparr>)"
  by (simp add: ngOnInit_def Let_def fillCategories_Some issue_def state_after_def)

lemma ngOnInit_None:
  "categories s = None \<Longrightarrow>
   state_after (ngOnInit lc s) =
     s\<lparr>categoryMap := [],
       pending := pending s @
         [(getAllPriorities, ngOnInit_priorities), (getAllCategories, ngOnInit_categories)]\<rparr>"
  by (simp add: ngOnInit_def Let_def fillCategories_None issue_def state_after_def)

lemma state_after_fillCategories:
  "stat (state_after (fillCategories lc s)) = stat s"
  "zips (state_after (fillCategories lc s)) = zips s"
  "nextZip (state_after (fillCategories lc s)) = nextZip s"
  by (cases "categories s"; simp add: fillCategories_Some fillCategories_None state_after_def stat_def)+

lemma zip_next_stat:
  "stat (zip_next b k n s) = stat s \<or>
   (\<exists>slots a0 a1 a2 a3. map_of (zips s) b = Some slots \<and>
      slots[k := Some n] = [Some a0, Some a1, Some a2, Some a3] \<and>
      stat (zip_next b k n s) = (Some a0, Some a1, Some a2, Some a3))"
  by (auto simp: zip_next_def stat_def split: option.splits list.splits)

lemma zip_next_full:
  "map_of (zips s) b = Some slots \<Longrightarrow> slots[k := Some n] = [Some a0, Some a1, Some a2, Some a3] \<Longrightarrow>
   zip_next b k n s = s\<lparr>totalTasksCountInCategory := Some a0,
                 completedCountInCategory := Some a1,
                 uncompletedCountInCategory := Some a2,
                 uncompletedTotalTasksCount := Some a3,
                 zips := AList.delete b (zips s)\<rparr>"
  by (simp add: zip_next_def)

lemma handler_stat:
  "stat (onAddCategory t s) = stat s"
  "stat (onSearchCategory t s) = stat s"
  "stat (onSelectCategory c s) = stat s"
  "stat (onDeleteCategory ca s) = stat s"
  "stat (onUpdateCategory ca s) = stat s"
  "stat (onUpdateTask ta s) = stat s"
  "stat (onDeleteTask ta s) = stat s"
  "stat (onSearchTasks t s) = stat s"
  "stat (onFilterTasksByStatus st s) = stat s"
  "stat (onFilterTasksByPriority p s) = stat s"
  "stat (onAddTask ta s) = stat s"
  "stat (toggleStat bo s) = stat s"
  "stat (onClosedMenu s) = stat s"
  "stat (toggleMenu s) = stat s"
  "stat (updateTasks s) = stat s"
  "stat (updateTasksAndStat s) = stat s"
  "stat (issue q k s) = stat s"
  by (simp_all add: handler_defs stat_def Let_def)

lemma ngOnInit_stat: "stat (state_after (ngOnInit lc s)) = stat s"
  by (cases "categories s")
     (simp_all add: ngOnInit_Some ngOnInit_None handler_stat, simp_all add: stat_def)

lemma react_stat_other:
  assumes "react lc k r s = Some s'" and "\<forall>b m. k \<noteq> zip_source b m"
  shows "stat s' = stat s"
  using assms
  by (cases k; cases r; cases "categories s")
     (auto simp: handler_defs stat_def Let_def fillCategories_Some fillCategories_None
        state_after_def split: option.splits)

lemma react_stat_zip:
  assumes "react lc (zip_source b m) r s = Some s'"
  shows "stat s' = stat s \<or>
   (\<exists>n slots a0 a1 a2 a3. r = Count n \<and> map_of (zips s) b = Some slots \<and>
      slots[m := Some n] = [Some a0, Some a1, Some a2, Some a3] \<and>
      stat s' = (Some a0, Some a1, Some a2, Some a3))"
proof (cases r)
  case Failed
  with assms show ?thesis by (auto simp: stat_def)
next
  case (Count n)
  with assms have "s' = zip_next b m n s" by simp
  with zip_next_stat [of b m n s] Count show ?thesis by auto
qed (use assms in auto)

subsection \<open>Invariants of a run\<close>

text \<open>
  The sources in the pending list belong to calls of \<^verbatim>\<open>updateStat\<close> that have been made,
  and a \<^verbatim>\<open>zip\<close> that has failed or completed never comes back: \<^verbatim>\<open>updateStat\<close> numbers
  each \<^verbatim>\<open>zip\<close> afresh.
\<close>

lemma ids_below_mono: "ids_below n ps \<Longrightarrow> n \<le> n' \<Longrightarrow> ids_below n' ps"
proof -
  have "zip_below n k \<Longrightarrow> n \<le> n' \<Longrightarrow> zip_below n' k" for k
    by (cases k) auto
  then show "ids_below n ps \<Longrightarrow> n \<le> n' \<Longrightarrow> ids_below n' ps"
    by (auto simp: ids_below_def list_all_iff)
qed

lemma ids_below_append [simp]: "ids_below n (ps @ qs) \<longleftrightarrow> ids_below n ps \<and> ids_below n qs"
  by (simp add: ids_below_def)

lemma ids_below_remove: "ids_below n ps \<Longrightarrow> ids_below n (take i ps @ drop (Suc i) ps)"
  by (auto simp: ids_below_def list_all_iff dest: in_set_takeD in_set_dropD)

lemma ids_below_fill [simp]:
  "ids_below n (map (\<lambda>cat. (f cat, fillCategories_next cat)) cs)"
  by (simp add: ids_below_def list_all_iff)

lemma ids_below_nth: "ids_below n ps \<Longrightarrow> i < length ps \<Longrightarrow> snd (ps ! i) = zip_source b m \<Longrightarrow> b < n"
  by (auto simp: ids_below_def list_all_length)

lemma react_ids:
  assumes "ids_below (nextZip s) (pending s)" and "react lc k r s = Some s'"
  shows "ids_below (nextZip s') (pending s')"
  using assms ids_below_mono [of "nextZip s" "pending s" "Suc (nextZip s)"]
  by (cases k; cases r; cases "categories s")
     (auto simp: handler_defs Let_def fillCategories_Some fillCategories_None state_after_def
        zip_next_def split: option.splits list.splits, simp_all add: ids_below_def)

lemma step_ids:
  assumes "ids_below (nextZip s) (pending s)" and "step lc e s = Some s'"
  shows "ids_below (nextZip s') (pending s')"
proof (cases e)
  case (Deliver i r)
  with assms(2) have "react lc (snd (pending s ! i)) r
      (s\<lparr>pending := take i (pending s) @ drop (Suc i) (pending s)\<rparr>) = Some s'"
    by (simp add: deliver_def split: if_splits)
  moreover have "ids_below (nextZip (s\<lparr>pending := take i (pending s) @ drop (Suc i) (pending s)\<rparr>))
      (pending (s\<lparr>pending := take i (pending s) @ drop (Suc i) (pending s)\<rparr>))"
    using assms(1) ids_below_remove [of "nextZip s" "pending s" i] by simp
  ultimately show ?thesis by (rule react_ids [rotated])
next
  case (SelectCategory c)
  with assms ids_below_mono [of "nextZip s" "pending s" "Suc (nextZip s)"] show ?thesis
    by (auto simp: handler_defs Let_def, simp_all add: ids_below_def)
next
  case Init
  show ?thesis
  proof (cases "categories s")
    case None
    with Init assms show ?thesis by (auto simp: ngOnInit_None ids_below_def)
  next
    case (Some cs)
    with Init assms ids_below_mono [of "nextZip s" "pending s" "Suc (nextZip s)"] show ?thesis
      by (auto simp: ngOnInit_Some handler_defs Let_def, simp_all add: ids_below_def list_all_iff)
  qed
qed (use assms in \<open>auto simp: handler_defs Let_def, (simp_all add: ids_below_def)?\<close>)

lemma run_ids:
  "ids_below (nextZip s) (pending s) \<Longrightarrow> run lc es s = Some s' \<Longrightarrow> ids_below (nextZip s') (pending s')"
proof (induction es arbitrary: s)
  case Nil then show ?case by simp
next
  case (Cons e es)
  then show ?case by (auto split: option.splits dest: step_ids)
qed

lemma constructed_ids: "ids_below (nextZip (constructed mo ta)) (pending (constructed mo ta))"
  by (simp add: constructed_def ids_below_def)

lemma react_gone:
  assumes "map_of (zips s) b = None" and "b < nextZip s" and "react lc k r s = Some s'"
  shows "map_of (zips s') b = None \<and> b < nextZip s'"
  using assms
  by (cases k; cases r; cases "categories s")
     (auto simp: handler_defs Let_def fillCategories_Some fillCategories_None state_after_def
        zip_next_def update_conv' delete_conv' map_add_def split: option.splits list.splits)

lemma step_gone:
  assumes "map_of (zips s) b = None" and "b < nextZip s" and "step lc e s = Some s'"
  shows "map_of (zips s') b = None \<and> b < nextZip s'"
proof (cases e)
  case (Deliver i r)
  with assms(3) have "react lc (snd (pending s ! i)) r
      (s\<lparr>pending := take i (pending s) @ drop (Suc i) (pending s)\<rparr>) = Some s'"
    by (simp add: deliver_def split: if_splits)
  with assms(1,2) react_gone [of "s\<lparr>pending := take i (pending s) @ drop (Suc i) (pending s)\<rparr>" b lc
      "snd (pending s ! i)" r s']
  show ?thesis by simp
next
  case Init
  with assms show ?thesis
    by (cases "categories s")
       (auto simp: ngOnInit_Some ngOnInit_None handler_defs Let_def map_add_def)
qed (use assms in \<open>auto simp: handler_defs Let_def map_add_def\<close>)

lemma run_gone:
  "map_of (zips s) b = None \<Longrightarrow> b < nextZip s \<Longrightarrow> run lc es s = Some s' \<Longrightarrow>
   map_of (zips s') b = None \<and> b < nextZip s'"
proof (induction es arbitrary: s)
  case Nil then show ?case by simp
next
  case (Cons e es)
  from Cons.prems obtain s1 where s1: "step lc e s = Some s1" "run lc es s1 = Some s'"
    by (auto split: option.splits)
  with Cons.prems step_gone [of s b lc e s1] have "map_of (zips s1) b = None \<and> b < nextZip s1"
    by simp
  with Cons.IH [of s1] s1 show ?case by simp
qed

subsection \<open>The state holds what the run has answered\<close>

lemma react_grows:
  assumes "react lc k r s = Some s'" and "\<forall>b m. k \<noteq> zip_source b m"
  shows "grows s s'"
  using assms
  by (cases k; cases r; cases "categories s")
     (auto simp: handler_defs grows_def Let_def fillCategories_Some fillCategories_None
        state_after_def statQueries_def split: option.splits)

lemma handler_grows:
  assumes "step lc e s = Some s'" and "\<forall>i r. e \<noteq> Deliver i r"
  shows "grows s s'"
  using assms
  by (cases e; cases "categories s")
     (auto simp: handler_defs grows_def Let_def ngOnInit_Some ngOnInit_None statQueries_def)

lemma zip_below_other: "\<forall>b m. k \<noteq> zip_source b m \<Longrightarrow> zip_below n k"
  by (cases k) auto

lemma source_of_Some: "source_of b k = Some m \<longleftrightarrow> k = zip_source b m"
  by (cases k) auto

lemma ids_below_source:
  "ids_below n ps \<Longrightarrow> p \<in> set ps \<Longrightarrow> source_of b (snd p) = Some m \<Longrightarrow> b < n"
  by (auto simp: ids_below_def list_all_iff source_of_Some)

lemma map_of_snoc:
  "map_of (zs @ [(k, v)]) b = (case map_of zs b of Some x \<Rightarrow> Some x | None \<Rightarrow> if b = k then Some v else None)"
  by (simp add: map_add_def split: option.splits)

lemma nth_blank: "m < 4 \<Longrightarrow> [None, None, None, None] ! m = None"
proof -
  assume "m < 4"
  then have "m < length [None, None, None, None :: 'a option]" by simp
  then have "[None, None, None, None :: 'a option] ! m \<in> set [None, None, None, None]"
    by (rule nth_mem)
  then show ?thesis by simp
qed

lemma zip_inv_grows:
  assumes inv: "zip_inv b s h" and g: "grows s s'"
  shows "zip_inv b s' h"
proof -
  from g obtain new where new: "pending s' = pending s @ new"
    and cases: "(zips s' = zips s \<and> nextZip s' = nextZip s \<and>
          (\<forall>p \<in> set new. \<forall>b m. snd p \<noteq> zip_source b m))
       \<or> (\<exists>c. zips s' = zips s @ [(nextZip s, [None, None, None, None])] \<and>
               nextZip s' = Suc (nextZip s) \<and>
               (\<forall>p \<in> set new. \<forall>b m. snd p = zip_source b m \<longrightarrow>
                   b = nextZip s \<and> m < 4 \<and> fst p = statQueries c ! m))"
    unfolding grows_def by blast
  from inv have len: "length (fst h) = 4" and ids: "ids_below (nextZip s) (pending s)"
    and made: "b < nextZip s \<Longrightarrow> map_of (zips s) b =
          (if snd h \<or> all_answered (fst h) then None
           else Some (map (map_option snd) (fst h)))"
    and unmade: "nextZip s \<le> b \<Longrightarrow>
        map_of (zips s) b = None \<and> fst h = [None, None, None, None] \<and> \<not> snd h"
    unfolding zip_inv_def by simp_all
  from inv obtain c where c1: "\<forall>p \<in> set (pending s). \<forall>m. source_of b (snd p) = Some m \<longrightarrow>
               m < 4 \<and> fst p = statQueries c ! m"
    and c2: "\<forall>m q n. m < 4 \<longrightarrow> fst h ! m = Some (q, n) \<longrightarrow> q = statQueries c ! m"
    unfolding zip_inv_def by blast
  have blank: "fst h ! m = None" if "fst h = [None, None, None, None]" and "m < 4" for m
    using that by (simp add: nth_blank)
  from cases show ?thesis
  proof
    assume a: "zips s' = zips s \<and> nextZip s' = nextZip s \<and>
          (\<forall>p \<in> set new. \<forall>b m. snd p \<noteq> zip_source b m)"
    then have ids': "ids_below (nextZip s') (pending s')"
      using ids new by (auto simp: ids_below_def list_all_iff zip_below_other)
    have "\<forall>p \<in> set (pending s'). \<forall>m. source_of b (snd p) = Some m \<longrightarrow>
               m < 4 \<and> fst p = statQueries c ! m"
    proof (intro ballI allI impI)
      fix p m
      assume p: "p \<in> set (pending s')" and so: "source_of b (snd p) = Some m"
      from so have k: "snd p = zip_source b m" by (simp add: source_of_Some)
      from p new consider "p \<in> set (pending s)" | "p \<in> set new" by auto
      then show "m < 4 \<and> fst p = statQueries c ! m"
      proof cases
        case 1
        with c1 so show ?thesis by blast
      next
        case 2
        with a k show ?thesis by blast
      qed
    qed
    with c2 have ex: "\<exists>c. (\<forall>p \<in> set (pending s'). \<forall>m. source_of b (snd p) = Some m \<longrightarrow>
               m < 4 \<and> fst p = statQueries c ! m) \<and>
          (\<forall>m q n. m < 4 \<longrightarrow> fst h ! m = Some (q, n) \<longrightarrow> q = statQueries c ! m)"
      by blast
    from a have "zips s' = zips s" "nextZip s' = nextZip s" by simp_all
    with len ids' made unmade ex show ?thesis
      unfolding zip_inv_def by simp
  next
    assume "\<exists>c. zips s' = zips s @ [(nextZip s, [None, None, None, None])] \<and>
               nextZip s' = Suc (nextZip s) \<and>
               (\<forall>p \<in> set new. \<forall>b m. snd p = zip_source b m \<longrightarrow>
                   b = nextZip s \<and> m < 4 \<and> fst p = statQueries c ! m)"
    then obtain c' where z: "zips s' = zips s @ [(nextZip s, [None, None, None, None])]"
      and nz: "nextZip s' = Suc (nextZip s)"
      and n: "\<forall>p \<in> set new. \<forall>b m. snd p = zip_source b m \<longrightarrow>
                   b = nextZip s \<and> m < 4 \<and> fst p = statQueries c' ! m"
      by blast
    have ids': "ids_below (nextZip s') (pending s')"
    proof -
      have "zip_below (Suc (nextZip s)) (snd p)" if "p \<in> set new" for p
        using n that by (cases "snd p") auto
      with ids ids_below_mono [of "nextZip s" "pending s" "Suc (nextZip s)"] new nz
      show ?thesis by (auto simp: ids_below_def list_all_iff)
    qed
    show ?thesis
    proof (cases "b = nextZip s")
      case True
      with unmade have u: "map_of (zips s) b = None" "fst h = [None, None, None, None]" "\<not> snd h"
        by simp_all
      have old: "source_of b (snd p) = None" if "p \<in> set (pending s)" for p
      proof (cases "source_of b (snd p)")
        case (Some m)
        with ids that have "b < nextZip s" by (rule ids_below_source)
        with True show ?thesis by simp
      qed simp
      have q1: "\<forall>p \<in> set (pending s'). \<forall>m. source_of b (snd p) = Some m \<longrightarrow>
               m < 4 \<and> fst p = statQueries c' ! m"
      proof (intro ballI allI impI)
        fix p m
        assume p: "p \<in> set (pending s')" and so: "source_of b (snd p) = Some m"
        from so have k: "snd p = zip_source b m" by (simp add: source_of_Some)
        from p new consider "p \<in> set (pending s)" | "p \<in> set new" by auto
        then show "m < 4 \<and> fst p = statQueries c' ! m"
        proof cases
          case 1
          with old so show ?thesis by simp
        next
          case 2
          with n k show ?thesis by blast
        qed
      qed
      have q2: "\<forall>m q n. m < 4 \<longrightarrow> fst h ! m = Some (q, n) \<longrightarrow> q = statQueries c' ! m"
        using blank [OF u(2)] by simp
      from q1 q2 have ex: "\<exists>c. (\<forall>p \<in> set (pending s'). \<forall>m. source_of b (snd p) = Some m \<longrightarrow>
               m < 4 \<and> fst p = statQueries c ! m) \<and>
          (\<forall>m q n. m < 4 \<longrightarrow> fst h ! m = Some (q, n) \<longrightarrow> q = statQueries c ! m)"
        by blast
      have m: "map_of (zips s') b = Some (map (map_option snd) (fst h))"
        using z u True by (simp add: map_add_def)
      have nf: "\<not> all_answered (fst h)" using u(2) by (simp add: all_answered_def)
      from len ids' m nf u(3) nz True ex show ?thesis
        unfolding zip_inv_def by simp
    next
      case False
      have q1: "\<forall>p \<in> set (pending s'). \<forall>m. source_of b (snd p) = Some m \<longrightarrow>
               m < 4 \<and> fst p = statQueries c ! m"
      proof (intro ballI allI impI)
        fix p m
        assume p: "p \<in> set (pending s')" and so: "source_of b (snd p) = Some m"
        from so have k: "snd p = zip_source b m" by (simp add: source_of_Some)
        from p new consider "p \<in> set (pending s)" | "p \<in> set new" by auto
        then show "m < 4 \<and> fst p = statQueries c ! m"
        proof cases
          case 1
          with c1 so show ?thesis by blast
        next
          case 2
          with n k False show ?thesis by blast
        qed
      qed
      with c2 have ex: "\<exists>c. (\<forall>p \<in> set (pending s'). \<forall>m. source_of b (snd p) = Some m \<longrightarrow>
               m < 4 \<and> fst p = statQueries c ! m) \<and>
          (\<forall>m q n. m < 4 \<longrightarrow> fst h ! m = Some (q, n) \<longrightarrow> q = statQueries c ! m)"
        by blast
      have m: "map_of (zips s') b = map_of (zips s) b"
        using z False by (simp add: map_add_def split: option.splits)
      show ?thesis
      proof (cases "b < nextZip s")
        case True
        with len ids' m nz made ex show ?thesis
          unfolding zip_inv_def by simp
      next
        case ge: False
        with False have "Suc (nextZip s) \<le> b" by simp
        with ge len ids' m nz unmade ex show ?thesis
          unfolding zip_inv_def by simp
      qed
    qed
  qed
qed

lemma zip_inv_same:
  assumes "zip_inv b s h" and "pending s' = pending s" and "nextZip s' = nextZip s"
    and "map_of (zips s') b = map_of (zips s) b"
  shows "zip_inv b s' h"
  using assms unfolding zip_inv_def by simp

lemma zip_inv_remove:
  assumes "zip_inv b s h"
  shows "zip_inv b (s\<lparr>pending := take i (pending s) @ drop (Suc i) (pending s)\<rparr>) h"
proof -
  have sub: "p \<in> set (take i (pending s) @ drop (Suc i) (pending s)) \<Longrightarrow> p \<in> set (pending s)" for p
    by (auto dest: in_set_takeD in_set_dropD)
  from assms have "ids_below (nextZip s) (take i (pending s) @ drop (Suc i) (pending s))"
    unfolding zip_inv_def using ids_below_remove by blast
  moreover from assms obtain c where
    "\<forall>p \<in> set (pending s). \<forall>m. source_of b (snd p) = Some m \<longrightarrow> m < 4 \<and> fst p = statQueries c ! m"
    "\<forall>m q n. m < 4 \<longrightarrow> fst h ! m = Some (q, n) \<longrightarrow> q = statQueries c ! m"
    unfolding zip_inv_def by blast
  with sub have "\<exists>c. (\<forall>p \<in> set (take i (pending s) @ drop (Suc i) (pending s)).
        \<forall>m. source_of b (snd p) = Some m \<longrightarrow> m < 4 \<and> fst p = statQueries c ! m) \<and>
      (\<forall>m q n. m < 4 \<longrightarrow> fst h ! m = Some (q, n) \<longrightarrow> q = statQueries c ! m)"
    by blast
  ultimately show ?thesis using assms unfolding zip_inv_def by simp
qed

lemma full_map: "all_answered (map (map_option f) xs) = all_answered xs"
  unfolding all_answered_def by (induction xs) auto

lemma full_update: "all_answered xs \<Longrightarrow> all_answered (xs[m := Some v])"
  unfolding all_answered_def
  by (auto simp: list_all_iff dest: set_update_subset_insert [THEN subsetD])

lemma full_four: "all_answered [w, x, y, z] \<longleftrightarrow> w \<noteq> None \<and> x \<noteq> None \<and> y \<noteq> None \<and> z \<noteq> None"
  by (simp add: all_answered_def)

lemma four_places:
  assumes "length sl = 4"
  obtains w x y z where "sl = [w, x, y, z]"
proof -
  from assms have "\<exists>w x y z. sl = [w, x, y, z]"
    by (simp add: numeral_eq_Suc length_Suc_conv) blast
  with that show thesis by blast
qed

lemma zip_next_frame:
  "pending (zip_next b m n s) = pending s" "nextZip (zip_next b m n s) = nextZip s"
  "b' \<noteq> b \<Longrightarrow> map_of (zips (zip_next b m n s)) b' = map_of (zips s) b'"
  by (simp_all add: zip_next_def update_conv' delete_conv' split: option.splits list.splits)

lemma zip_next_alive:
  assumes "map_of (zips s) b = Some sl" and "length sl = 4"
  shows "map_of (zips (zip_next b m n s)) b =
           (if all_answered (sl[m := Some n]) then None else Some (sl[m := Some n]))"
proof -
  from assms(2) have "length (sl[m := Some n]) = 4" by simp
  then obtain w x y z where e: "sl[m := Some n] = [w, x, y, z]" by (rule four_places)
  show ?thesis
    unfolding e using assms(1) e
    by (cases w; cases x; cases y; cases z)
       (simp_all add: zip_next_def update_conv' delete_conv' full_four)
qed

lemma zip_next_gone:
  "map_of (zips s) b = None \<Longrightarrow> zip_next b m n s = s"
  by (simp add: zip_next_def)

lemma react_zip_frame:
  assumes "react lc (zip_source b' m) r s = Some s'"
  shows "pending s' = pending s \<and> nextZip s' = nextZip s \<and>
         (\<forall>b. b \<noteq> b' \<longrightarrow> map_of (zips s') b = map_of (zips s) b)"
  using assms by (cases r) (auto simp: zip_next_frame delete_conv')

lemma zip_inv_count:
  assumes inv: "zip_inv b s (ans, fl)" and i: "i < length (pending s)"
    and p: "pending s ! i = (q, zip_source b m)"
  shows "zip_inv b (zip_next b m n (s\<lparr>pending := take i (pending s) @ drop (Suc i) (pending s)\<rparr>))
           (ans[m := Some (q, n)], fl)"
proof -
  let ?s0 = "s\<lparr>pending := take i (pending s) @ drop (Suc i) (pending s)\<rparr>"
  let ?s' = "zip_next b m n ?s0"
  let ?ans = "ans[m := Some (q, n)]"
  from inv have inv0: "zip_inv b ?s0 (ans, fl)" by (rule zip_inv_remove)
  from i p have mem: "(q, zip_source b m) \<in> set (pending s)" by (metis nth_mem)
  from inv have len: "length ans = 4" and ids: "ids_below (nextZip s) (pending s)"
    unfolding zip_inv_def by simp_all
  from ids mem have b: "b < nextZip s" using ids_below_source [of "nextZip s" "pending s" "(q, zip_source b m)" b m]
    by simp
  with inv have made: "map_of (zips s) b =
      (if fl \<or> all_answered ans then None else Some (map (map_option snd) ans))"
    unfolding zip_inv_def by simp
  from inv obtain c where c1: "\<forall>p \<in> set (pending s). \<forall>m. source_of b (snd p) = Some m \<longrightarrow>
               m < 4 \<and> fst p = statQueries c ! m"
    and c2: "\<forall>m q n. m < 4 \<longrightarrow> ans ! m = Some (q, n) \<longrightarrow> q = statQueries c ! m"
    unfolding zip_inv_def by auto
  from c1 mem have "source_of b (snd (q, zip_source b m)) = Some m \<longrightarrow>
      m < 4 \<and> fst (q, zip_source b m) = statQueries c ! m" by blast
  then have m4: "m < 4" and q: "q = statQueries c ! m" by simp_all
  have z: "map_of (zips ?s') b =
      (if fl \<or> all_answered ?ans then None else Some (map (map_option snd) ?ans))"
  proof (cases "fl \<or> all_answered ans")
    case True
    with made have "map_of (zips ?s0) b = None" by simp
    then have "?s' = ?s0" by (rule zip_next_gone)
    moreover have "fl \<or> all_answered ?ans"
    proof (cases fl)
      case False
      with True have "all_answered ans" by blast
      then have "all_answered ?ans" by (rule full_update)
      then show ?thesis by (rule disjI2)
    qed (rule disjI1)
    ultimately show ?thesis using made True by simp
  next
    case False
    with made have "map_of (zips ?s0) b = Some (map (map_option snd) ans)" by simp
    moreover have "length (map (map_option snd) ans) = 4" using len by simp
    ultimately have "map_of (zips ?s') b =
        (if all_answered ((map (map_option snd) ans)[m := Some n]) then None
         else Some ((map (map_option snd) ans)[m := Some n]))"
      by (rule zip_next_alive)
    moreover have "(map (map_option snd) ans)[m := Some n] = map (map_option snd) ?ans"
      by (simp add: map_update)
    ultimately show ?thesis using False by (simp add: full_map)
  qed
  have c2': "\<forall>m' q' n'. m' < 4 \<longrightarrow> ?ans ! m' = Some (q', n') \<longrightarrow> q' = statQueries c ! m'"
  proof (intro allI impI)
    fix m' q' n'
    assume "m' < 4" and a: "?ans ! m' = Some (q', n')"
    show "q' = statQueries c ! m'"
    proof (cases "m' = m")
      case True
      with a m4 len q show ?thesis by simp
    next
      case False
      with a have "ans ! m' = Some (q', n')" by simp
      with c2 \<open>m' < 4\<close> show ?thesis by blast
    qed
  qed
  from inv0 obtain c0 where "\<forall>p \<in> set (pending ?s0). \<forall>m. source_of b (snd p) = Some m \<longrightarrow>
               m < 4 \<and> fst p = statQueries c0 ! m"
    unfolding zip_inv_def by auto
  have sub: "p \<in> set (pending ?s0) \<Longrightarrow> p \<in> set (pending s)" for p
    by (auto dest: in_set_takeD in_set_dropD)
  with c1 have c1': "\<forall>p \<in> set (pending ?s'). \<forall>m. source_of b (snd p) = Some m \<longrightarrow>
               m < 4 \<and> fst p = statQueries c ! m"
    by (simp add: zip_next_frame) blast
  from c1' c2' have ex: "\<exists>c. (\<forall>p \<in> set (pending ?s'). \<forall>m. source_of b (snd p) = Some m \<longrightarrow>
               m < 4 \<and> fst p = statQueries c ! m) \<and>
      (\<forall>m' q' n'. m' < 4 \<longrightarrow> fst (?ans, fl) ! m' = Some (q', n') \<longrightarrow> q' = statQueries c ! m')"
    by (simp only: fst_conv) blast
  from inv0 have ids': "ids_below (nextZip ?s') (pending ?s')"
    unfolding zip_inv_def by (simp add: zip_next_frame)
  have nz: "nextZip ?s' = nextZip s" by (simp add: zip_next_frame)
  show ?thesis
    unfolding zip_inv_def using len ids' z b nz ex by simp
qed

lemma zip_inv_failed:
  assumes inv: "zip_inv b s (ans, fl)" and i: "i < length (pending s)"
    and p: "snd (pending s ! i) = zip_source b m"
  shows "zip_inv b (s\<lparr>pending := take i (pending s) @ drop (Suc i) (pending s),
                      zips := AList.delete b (zips s)\<rparr>) (ans, True)"
proof -
  let ?s0 = "s\<lparr>pending := take i (pending s) @ drop (Suc i) (pending s)\<rparr>"
  from inv have inv0: "zip_inv b ?s0 (ans, fl)" by (rule zip_inv_remove)
  from i have "pending s ! i \<in> set (pending s)" by (rule nth_mem)
  moreover from inv have "ids_below (nextZip s) (pending s)" unfolding zip_inv_def by simp
  ultimately have b: "b < nextZip s"
    using p ids_below_source [of "nextZip s" "pending s" "pending s ! i" b m] by simp
  from inv0 b show ?thesis
    unfolding zip_inv_def by (simp add: delete_conv')
qed

lemma observe_other:
  "i < length (pending s) \<Longrightarrow> source_of b (snd (pending s ! i)) = None \<Longrightarrow>
   observe b (Deliver i r) s h = h"
  by (cases h; cases r) simp_all

lemma observe_handler: "\<forall>i r. e \<noteq> Deliver i r \<Longrightarrow> observe b e s h = h"
  by (cases h; cases e) simp_all

lemma zip_inv_step:
  assumes inv: "zip_inv b s h" and st: "step lc e s = Some s'"
  shows "zip_inv b s' (observe b e s h)"
proof (cases "\<exists>i r. e = Deliver i r")
  case False
  then have "\<forall>i r. e \<noteq> Deliver i r" by blast
  with st inv show ?thesis
    using handler_grows zip_inv_grows observe_handler by metis
next
  case True
  then obtain i r where e: "e = Deliver i r" by blast
  let ?s0 = "s\<lparr>pending := take i (pending s) @ drop (Suc i) (pending s)\<rparr>"
  from st e have i: "i < length (pending s)"
    and re: "react lc (snd (pending s ! i)) r ?s0 = Some s'"
    by (auto simp: deliver_def split: if_splits)
  from inv have inv0: "zip_inv b ?s0 h" by (rule zip_inv_remove)
  obtain ans fl where h: "h = (ans, fl)" by (cases h)
  show ?thesis
  proof (cases "source_of b (snd (pending s ! i))")
    case None
    with i e have o: "observe b e s h = h" by (simp add: observe_other)
    show ?thesis
    proof (cases "\<exists>b' m'. snd (pending s ! i) = zip_source b' m'")
      case False
      with re have "grows ?s0 s'" using react_grows by blast
      with inv0 o show ?thesis using zip_inv_grows by simp
    next
      case True
      then obtain b' m' where k: "snd (pending s ! i) = zip_source b' m'" by blast
      with None have "b' \<noteq> b" by (simp split: if_splits)
      with re k react_zip_frame [of lc b' m' r ?s0 s']
      have "pending s' = pending ?s0" "nextZip s' = nextZip ?s0"
        "map_of (zips s') b = map_of (zips ?s0) b" by auto
      with inv0 o show ?thesis using zip_inv_same by simp
    qed
  next
    case (Some m)
    then have k: "snd (pending s ! i) = zip_source b m" by (simp add: source_of_Some)
    then have pq: "pending s ! i = (fst (pending s ! i), zip_source b m)"
      by (metis prod.collapse)
    show ?thesis
    proof (cases r)
      case Failed
      with re k have "s' = ?s0\<lparr>zips := AList.delete b (zips ?s0)\<rparr>" by simp
      moreover from Failed e i Some h have "observe b e s h = (ans, True)" by simp
      ultimately show ?thesis
        using zip_inv_failed [OF inv [unfolded h] i k] by simp
    next
      case (Count n)
      with re k have "s' = zip_next b m n ?s0" by simp
      moreover from Count e i Some h
      have "observe b e s h = (ans[m := Some (fst (pending s ! i), n)], fl)" by simp
      ultimately show ?thesis
        using zip_inv_count [OF inv [unfolded h] i pq] by simp
    qed (use re k in simp_all)
  qed
qed

lemma zip_inv_run:
  "zip_inv b s h \<Longrightarrow> run lc es s = Some s' \<Longrightarrow> zip_inv b s' (history lc b es s h)"
proof (induction es arbitrary: s h)
  case Nil
  then show ?case by simp
next
  case (Cons e es)
  from Cons.prems(2) obtain s1 where s1: "step lc e s = Some s1" "run lc es s1 = Some s'"
    by (auto split: option.splits)
  from Cons.prems(1) s1(1) have "zip_inv b s1 (observe b e s h)" by (rule zip_inv_step)
  with s1 Cons.IH show ?case by simp
qed

lemma zip_inv_constructed: "zip_inv b (constructed mo ta) unanswered"
  by (simp add: zip_inv_def constructed_def unanswered_def ids_below_def nth_blank all_answered_def)

lemma zip_store:
  assumes "i < length (pending u)" and "snd (pending u ! i) = zip_source b m"
    and "map_of (zips u) b = Some sl"
    and "\<forall>a0 a1 a2 a3. sl[m := Some n] \<noteq> [Some a0, Some a1, Some a2, Some a3]"
  shows "deliver lc i (Count n) u =
           Some (u\<lparr>zips := AList.update b (sl[m := Some n]) (zips u),
                    pending := take i (pending u) @ drop (Suc i) (pending u)\<rparr>)"
  using assms by (simp add: deliver_def zip_next_def split: list.splits option.splits)

lemma reached_inv:
  assumes "run lc es (constructed mo ta) = Some s"
  shows "zip_inv b s (history lc b es (constructed mo ta) unanswered)"
  using zip_inv_constructed assms by (rule zip_inv_run)

lemma all_answered_nth: "all_answered xs \<Longrightarrow> j < length xs \<Longrightarrow> xs ! j \<noteq> None"
  by (simp add: all_answered_def list_all_length)

lemma not_answered_before:
  assumes "\<not> all_answered ans" and "all_answered (ans[m := v])"
  shows "m < length ans \<and> ans ! m = None"
proof -
  have m: "m < length ans"
  proof (rule ccontr)
    assume "\<not> m < length ans"
    then have "length ans \<le> m" by simp
    then have "ans[m := v] = ans" by (rule list_update_beyond)
    with assms show False by simp
  qed
  have "ans ! m = None"
  proof (rule ccontr)
    assume a: "ans ! m \<noteq> None"
    have "ans ! j \<noteq> None" if "j < length ans" for j
    proof (cases "j = m")
      case True
      with a show ?thesis by simp
    next
      case False
      with that assms(2) all_answered_nth [of "ans[m := v]" j] show ?thesis by simp
    qed
    then have "all_answered ans" by (simp add: all_answered_def list_all_length)
    with assms(1) show False by simp
  qed
  with m show ?thesis by simp
qed

lemma answered_four:
  assumes "map (map_option snd) xs = [Some a0, Some a1, Some a2, Some a3]"
  obtains q0 q1 q2 q3 where "xs = [Some (q0, a0), Some (q1, a1), Some (q2, a2), Some (q3, a3)]"
proof -
  from arg_cong [where f = length, OF assms] have "length xs = 4" by simp
  then obtain w x y z where e: "xs = [w, x, y, z]" by (rule four_places)
  with assms have "map_option snd w = Some a0" "map_option snd x = Some a1"
    "map_option snd y = Some a2" "map_option snd z = Some a3" by simp_all
  then obtain q0 q1 q2 q3 where "w = Some (q0, a0)" "x = Some (q1, a1)" "y = Some (q2, a2)"
    "z = Some (q3, a3)" by (auto simp: map_option_case split: option.splits)
  with e that show thesis by blast
qed

subsection \<open>The statistics\<close>

lemma step_stat:
  assumes "step lc e s = Some s'"
  shows "stat s' = stat s \<or>
          (\<exists>i q b m n slots a0 a1 a2 a3.
             e = Deliver i (Count n) \<and> i < length (pending s) \<and>
             pending s ! i = (q, zip_source b m) \<and> map_of (zips s) b = Some slots \<and>
             slots[m := Some n] = [Some a0, Some a1, Some a2, Some a3] \<and>
             stat s' = (Some a0, Some a1, Some a2, Some a3))"
proof (cases e)
  case (Deliver i r)
  let ?s0 = "s\<lparr>pending := take i (pending s) @ drop (Suc i) (pending s)\<rparr>"
  from assms Deliver have i: "i < length (pending s)"
    and re: "react lc (snd (pending s ! i)) r ?s0 = Some s'"
    by (auto simp: deliver_def split: if_splits)
  have s0: "stat ?s0 = stat s" "zips ?s0 = zips s" by (simp_all add: stat_def)
  show ?thesis
  proof (cases "\<exists>b m. snd (pending s ! i) = zip_source b m")
    case False
    with re react_stat_other [of lc "snd (pending s ! i)" r ?s0 s'] s0
    show ?thesis by simp
  next
    case True
    then obtain b m where k: "snd (pending s ! i) = zip_source b m" by blast
    then have p: "pending s ! i = (fst (pending s ! i), zip_source b m)"
      by (metis prod.collapse)
    from re k react_stat_zip [of lc b m r ?s0 s'] s0
    consider "stat s' = stat s"
      | n slots a0 a1 a2 a3 where "r = Count n" "map_of (zips s) b = Some slots"
          "slots[m := Some n] = [Some a0, Some a1, Some a2, Some a3]"
          "stat s' = (Some a0, Some a1, Some a2, Some a3)"
      by auto
    then show ?thesis
    proof cases
      case 1 then show ?thesis by simp
    next
      case 2
      with Deliver i p show ?thesis by blast
    qed
  qed
qed (use assms in \<open>auto simp: handler_stat ngOnInit_stat\<close>)

lemma zip_invD:
  assumes "zip_inv b s (ans, fl)"
  shows "length ans = 4"
    and "ids_below (nextZip s) (pending s)"
    and "b < nextZip s \<Longrightarrow>
           map_of (zips s) b =
             (if fl \<or> all_answered ans then None else Some (map (map_option snd) ans))"
    and "\<exists>c. (\<forall>p \<in> set (pending s). \<forall>m. source_of b (snd p) = Some m \<longrightarrow>
                 m < 4 \<and> fst p = statQueries c ! m) \<and>
             (\<forall>m q n. m < 4 \<longrightarrow> ans ! m = Some (q, n) \<longrightarrow> q = statQueries c ! m)"
  using assms unfolding zip_inv_def by simp_all

lemma published_is_answered:
  assumes "run lc es (constructed mo ta) = Some s" and "step lc e s = Some s'"
  shows "stat s' = stat s \<or>
          (\<exists>i b m n c a0 a1 a2 a3.
             e = Deliver i (Count n) \<and> i < length (pending s) \<and>
             snd (pending s ! i) = zip_source b m \<and>
             fst (history lc b es (constructed mo ta) unanswered) ! m = None \<and>
             observe b e s (history lc b es (constructed mo ta) unanswered) =
               ([Some (getTotalCountInCategory c, a0), Some (getCompletedCountInCategory c, a1),
                 Some (getUncompletedCountInCategory c, a2), Some (getUncompletedTotalCount, a3)],
                False) \<and>
             stat s' = (Some a0, Some a1, Some a2, Some a3))"
proof (cases "stat s' = stat s")
  case True
  then show ?thesis by (rule disjI1)
next
  case False
  with step_stat [OF assms(2)] obtain i q b m n slots a0 a1 a2 a3
    where e: "e = Deliver i (Count n)" and i: "i < length (pending s)"
      and p: "pending s ! i = (q, zip_source b m)" and sl: "map_of (zips s) b = Some slots"
      and full: "slots[m := Some n] = [Some a0, Some a1, Some a2, Some a3]"
      and st: "stat s' = (Some a0, Some a1, Some a2, Some a3)"
    by blast
  let ?h = "history lc b es (constructed mo ta) unanswered"
  obtain ans fl where h: "?h = (ans, fl)" by (cases ?h)
  from assms(1) have inv: "zip_inv b s (ans, fl)"
    using reached_inv [of lc es mo ta s b] h by simp
  from p have k: "snd (pending s ! i) = zip_source b m" by simp
  from zip_invD(2) [OF inv] i k have b: "b < nextZip s" by (rule ids_below_nth)
  from zip_invD(3) [OF inv b] sl
  have alive: "\<not> (fl \<or> all_answered ans)" and slots: "slots = map (map_option snd) ans"
    by (simp_all split: if_splits)
  from alive have nofail: "fl = False" and open_: "\<not> all_answered ans" by simp_all
  from i p have o: "observe b (Deliver i (Count n)) s (ans, fl) = (ans[m := Some (q, n)], fl)"
    by simp
  from inv assms(2) have "zip_inv b s' (observe b e s (ans, fl))" by (rule zip_inv_step)
  with e o have inv': "zip_inv b s' (ans[m := Some (q, n)], fl)" by simp
  from zip_invD(4) [OF inv'] obtain c
    where c: "\<And>j q' n'. j < 4 \<Longrightarrow> (ans[m := Some (q, n)]) ! j = Some (q', n') \<Longrightarrow>
      q' = statQueries c ! j"
    by blast
  have "map (map_option snd) (ans[m := Some (q, n)]) = [Some a0, Some a1, Some a2, Some a3]"
    using full slots by (simp add: map_update)
  then obtain q0 q1 q2 q3 where
    a: "ans[m := Some (q, n)] = [Some (q0, a0), Some (q1, a1), Some (q2, a2), Some (q3, a3)]"
    by (rule answered_four)
  have "q0 = statQueries c ! 0" by (rule c [of 0 q0 a0]) (simp_all add: a)
  moreover have "q1 = statQueries c ! 1" by (rule c [of 1 q1 a1]) (simp_all add: a)
  moreover have "q2 = statQueries c ! 2" by (rule c [of 2 q2 a2]) (simp_all add: a)
  moreover have "q3 = statQueries c ! 3" by (rule c [of 3 q3 a3]) (simp_all add: a)
  ultimately have qs: "q0 = getTotalCountInCategory c" "q1 = getCompletedCountInCategory c"
    "q2 = getUncompletedCountInCategory c" "q3 = getUncompletedTotalCount"
    by (simp_all add: statQueries_def)
  have "all_answered (ans[m := Some (q, n)])" unfolding a by (simp add: full_four)
  with open_ have "ans ! m = None" using not_answered_before by blast
  with h have before: "fst ?h ! m = None" by simp
  from o have "observe b e s ?h = (ans[m := Some (q, n)], fl)"
    unfolding h e .
  then have after: "observe b e s ?h =
      ([Some (getTotalCountInCategory c, a0), Some (getCompletedCountInCategory c, a1),
        Some (getUncompletedCountInCategory c, a2), Some (getUncompletedTotalCount, a3)], False)"
    unfolding a qs nofail .
  from e i k before after st show ?thesis by blast
qed

text \<open>
  Claim C4: \<^verbatim>\<open>updateStat\<close> makes one \<^verbatim>\<open>zip\<close> with four empty places and issues the four
  count queries as its sources. A count that does not fill the last empty place of its
  \<^verbatim>\<open>zip\<close> is kept in its own place of that \<^verbatim>\<open>zip\<close> and changes nothing else (in any state
  \<open>u\<close>). In every turn \<open>e\<close> of the event loop, in every state \<open>s\<close> that a run \<open>es\<close> from the
  constructed component reaches, the four statistics fields either all stay as they
  are, or \<open>e\<close> completes a count for a source \<open>m\<close> of a \<^verbatim>\<open>zip\<close> \<open>b\<close> that had not answered
  before, no source of \<open>b\<close> has failed, the run has by now answered each of the four
  queries of \<open>b\<close>, which are the four count queries of one category \<open>c\<close>, and the four
  fields are the four counts that the run answered to them, in the order of the
  sources. No turn writes fewer than four fields, and no turn writes a count that was
  answered to another \<^verbatim>\<open>zip\<close>.
\<close>

theorem statistics_written_together:
  assumes "run lc es (constructed mo ta) = Some s" and "step lc e s = Some s'"
    and "j < length (pending u)" and "snd (pending u ! j) = zip_source b' m'"
    and "map_of (zips u) b' = Some sl"
    and "\<forall>a0 a1 a2 a3. sl[m' := Some n'] \<noteq> [Some a0, Some a1, Some a2, Some a3]"
  shows "(stat s' = stat s \<or>
          (\<exists>i b m n c a0 a1 a2 a3.
             e = Deliver i (Count n) \<and> i < length (pending s) \<and>
             snd (pending s ! i) = zip_source b m \<and>
             fst (history lc b es (constructed mo ta) unanswered) ! m = None \<and>
             observe b e s (history lc b es (constructed mo ta) unanswered) =
               ([Some (getTotalCountInCategory c, a0), Some (getCompletedCountInCategory c, a1),
                 Some (getUncompletedCountInCategory c, a2), Some (getUncompletedTotalCount, a3)],
                False) \<and>
             stat s' = (Some a0, Some a1, Some a2, Some a3)))
       \<and> deliver lc j (Count n') u =
           Some (u\<lparr>zips := AList.update b' (sl[m' := Some n']) (zips u),
                    pending := take j (pending u) @ drop (Suc j) (pending u)\<rparr>)
       \<and> zips (updateStat s) = zips s @ [(nextZip s, [None, None, None, None])]
       \<and> pending (updateStat s) = pending s @
           [(getTotalCountInCategory (selectedCategory s), zip_source (nextZip s) 0),
            (getCompletedCountInCategory (selectedCategory s), zip_source (nextZip s) 1),
            (getUncompletedCountInCategory (selectedCategory s), zip_source (nextZip s) 2),
            (getUncompletedTotalCount, zip_source (nextZip s) 3)]"
proof -
  note published_is_answered [OF assms(1,2)]
  moreover note zip_store [OF assms(3-6), of lc]
  moreover have "zips (updateStat s) = zips s @ [(nextZip s, [None, None, None, None])]"
    by (simp add: handler_defs Let_def)
  moreover have "pending (updateStat s) = pending s @
           [(getTotalCountInCategory (selectedCategory s), zip_source (nextZip s) 0),
            (getCompletedCountInCategory (selectedCategory s), zip_source (nextZip s) 1),
            (getUncompletedCountInCategory (selectedCategory s), zip_source (nextZip s) 2),
            (getUncompletedTotalCount, zip_source (nextZip s) 3)]"
    by (simp add: handler_defs Let_def)
  ultimately show ?thesis by (intro conjI)
qed

theorem statistics_written_together_witness:
  "run codeunit_compare [SelectCategory None, Deliver 1 (Count 5), Deliver 1 (Count 2),
       Deliver 1 (Count 3)] desktop = Some three_counted
   \<and> history codeunit_compare 0 [SelectCategory None, Deliver 1 (Count 5), Deliver 1 (Count 2),
       Deliver 1 (Count 3)] desktop unanswered =
       ([Some (getTotalCountInCategory None, 5), Some (getCompletedCountInCategory None, 2),
         Some (getUncompletedCountInCategory None, 3), None], False)
   \<and> step codeunit_compare (Deliver 1 (Count 9)) three_counted =
       Some (desktop\<lparr>totalTasksCountInCategory := Some 5, completedCountInCategory := Some 2,
               uncompletedCountInCategory := Some 3, uncompletedTotalTasksCount := Some 9,
               pending := [(searchTasks None [] None None, updateTasks_next)],
               nextZip := 1\<rparr>)
   \<and> stat three_counted = (None, None, None, None)
   \<and> map_option zips (deliver codeunit_compare 1 (Count 5) (onSelectCategory None desktop)) =
       Some [(0, [Some 5, None, None, None])]"
  using statistics_written_together [where lc = codeunit_compare
      and es = "[SelectCategory None, Deliver 1 (Count 5), Deliver 1 (Count 2), Deliver 1 (Count 3)]"
      and mo = False and ta = False
      and e = "Deliver 1 (Count 9)" and s = three_counted
      and s' = "desktop\<lparr>totalTasksCountInCategory := Some 5, completedCountInCategory := Some 2,
               uncompletedCountInCategory := Some 3, uncompletedTotalTasksCount := Some 9,
               pending := [(searchTasks None [] None None, updateTasks_next)],
               nextZip := 1\<rparr>"
      and u = "onSelectCategory None desktop" and j = 1 and b' = 0 and m' = 0
      and sl = "[None, None, None, None]" and n' = 5]
  by (simp add: handler_defs example_defs deliver_def zip_next_def stat_def unanswered_def
      AList.delete_eq)

text \<open>
  Claim C5, as stated: when a second recompute is issued before the first has settled,
  the result of the first is discarded if it resolves after the second was issued. It
  is not: no \<^verbatim>\<open>zip\<close> is ever unsubscribed by a later call of \<^verbatim>\<open>updateStat\<close>. Select \<open>work\<close>,
  then \<open>home\<close>; let the four counts for \<open>home\<close> resolve, then the four counts for
  \<open>work\<close>: the statistics of \<open>home\<close> are published first and overwritten by those of
  \<open>work\<close>, while the selected category is \<open>home\<close>.
\<close>

theorem earlier_zip_overwrites_later:
  "map_option shown
     (run codeunit_compare
        [SelectCategory (Some work), SelectCategory (Some home),
         Deliver 6 (Count 10), Deliver 6 (Count 4), Deliver 6 (Count 6), Deliver 6 (Count 9)]
        desktop) =
   Some (Some home, (Some 10, Some 4, Some 6, Some 9))
   \<and> map_option shown
     (run codeunit_compare
        [SelectCategory (Some work), SelectCategory (Some home),
         Deliver 6 (Count 10), Deliver 6 (Count 4), Deliver 6 (Count 6), Deliver 6 (Count 9),
         Deliver 1 (Count 3), Deliver 1 (Count 1), Deliver 1 (Count 2), Deliver 1 (Count 9)]
        desktop) =
   Some (Some home, (Some 3, Some 1, Some 2, Some 9))"
  by (simp add: handler_defs example_defs deliver_def zip_next_def stat_def shown_def
      AList.delete_eq)

text \<open>
  Claim C5, amended: in every state \<open>s\<close> that a run \<open>es\<close> from the constructed component
  reaches, whatever recomputes the run has issued: when a count completes for a source
  \<open>m\<close> of a \<^verbatim>\<open>zip\<close> \<open>b\<close> that had not answered before, no source of \<open>b\<close> has failed, and
  with this count the run has answered all four sources of \<open>b\<close>, then the four fields
  are written with the four counts answered to \<open>b\<close> and \<open>b\<close> ends. A later recompute does
  not discard an earlier one: the statistics shown are those of the \<^verbatim>\<open>zip\<close> that
  completed last, which need not be the one issued last.
\<close>

theorem zip_publishes_when_complete:
  assumes "run lc es (constructed mo ta) = Some s"
    and "i < length (pending s)" and "snd (pending s ! i) = zip_source b m"
    and "history lc b es (constructed mo ta) unanswered = (ans, False)"
    and "ans ! m = None"
    and "(map (map_option snd) ans)[m := Some n] = [Some a0, Some a1, Some a2, Some a3]"
  shows "deliver lc i (Count n) s =
           Some (s\<lparr>totalTasksCountInCategory := Some a0,
                    completedCountInCategory := Some a1,
                    uncompletedCountInCategory := Some a2,
                    uncompletedTotalTasksCount := Some a3,
                    zips := AList.delete b (zips s),
                    pending := take i (pending s) @ drop (Suc i) (pending s)\<rparr>)"
proof -
  from assms(1,4) have inv: "zip_inv b s (ans, False)" using reached_inv [of lc es mo ta s b] by simp
  then have len: "length ans = 4" and ids: "ids_below (nextZip s) (pending s)"
    unfolding zip_inv_def by simp_all
  from ids assms(2,3) have b: "b < nextZip s" using ids_below_nth by blast
  from assms(2) have mem: "pending s ! i \<in> set (pending s)" by (rule nth_mem)
  from inv obtain c where "\<forall>p \<in> set (pending s). \<forall>m. source_of b (snd p) = Some m \<longrightarrow>
               m < 4 \<and> fst p = statQueries c ! m"
    unfolding zip_inv_def by auto
  with mem assms(3) have m4: "m < 4" by (auto simp: source_of_Some)
  with assms(5) len have "\<not> all_answered ans" using all_answered_nth [of ans m] by auto
  with inv b have "map_of (zips s) b = Some (map (map_option snd) ans)"
    unfolding zip_inv_def by simp
  with assms(2,3,6) show ?thesis
    by (simp add: deliver_def zip_next_def)
qed

theorem zip_publishes_when_complete_witness:
  "run codeunit_compare [SelectCategory (Some work), Deliver 1 (Count 3), Deliver 1 (Count 1),
       Deliver 1 (Count 2), SelectCategory (Some home)] desktop = Some late_work
   \<and> snd (pending late_work ! 1) = zip_source 0 3
   \<and> history codeunit_compare 0 [SelectCategory (Some work), Deliver 1 (Count 3),
       Deliver 1 (Count 1), Deliver 1 (Count 2), SelectCategory (Some home)] desktop unanswered =
       ([Some (getTotalCountInCategory (Some work), 3),
         Some (getCompletedCountInCategory (Some work), 1),
         Some (getUncompletedCountInCategory (Some work), 2), None], False)
   \<and> map_option shown (deliver codeunit_compare 1 (Count 9) late_work) =
       Some (Some home, Some 3, Some 1, Some 2, Some 9)"
  using zip_publishes_when_complete [where lc = codeunit_compare
      and es = "[SelectCategory (Some work), Deliver 1 (Count 3), Deliver 1 (Count 1),
                 Deliver 1 (Count 2), SelectCategory (Some home)]"
      and mo = False and ta = False and s = late_work and i = 1 and b = 0 and m = 3
      and ans = "[Some (getTotalCountInCategory (Some work), 3),
                  Some (getCompletedCountInCategory (Some work), 1),
                  Some (getUncompletedCountInCategory (Some work), 2), None]"
      and n = 9 and ?a0.0 = 3 and ?a1.0 = 1 and ?a2.0 = 2 and ?a3.0 = 9]
  by (simp add: handler_defs example_defs deliver_def zip_next_def stat_def shown_def
      unanswered_def AList.delete_eq)

text \<open>
  Claim C7: in a state \<open>s\<close> reached from the constructed component, let one of the
  four counts of a \<^verbatim>\<open>zip\<close> fail. The failure writes none of the four statistics fields
  and ends the \<^verbatim>\<open>zip\<close>; after any further events, whatever one of the other counts of
  that \<^verbatim>\<open>zip\<close> returns, its completion writes none of the four fields either. The tuple
  of a \<^verbatim>\<open>zip\<close> with a failed count is never published.
\<close>

theorem failed_count_withholds_tuple:
  assumes "run lc es0 (constructed mo ta) = Some s"
    and "i < length (pending s)" and "snd (pending s ! i) = zip_source b m"
    and "deliver lc i Failed s = Some s1"
    and "run lc es s1 = Some s2"
    and "j < length (pending s2)" and "snd (pending s2 ! j) = zip_source b m'"
    and "deliver lc j r s2 = Some s3"
  shows "stat s1 = stat s \<and> map_of (zips s1) b = None \<and> stat s3 = stat s2"
proof -
  from assms(1) have "ids_below (nextZip s) (pending s)"
    using run_ids [OF constructed_ids] by blast
  with assms(2,3) have b: "b < nextZip s" using ids_below_nth by blast
  from assms(2,3,4) have s1: "s1 = s\<lparr>pending := take i (pending s) @ drop (Suc i) (pending s),
      zips := AList.delete b (zips s)\<rparr>"
    by (simp add: deliver_def)
  then have gone1: "map_of (zips s1) b = None" "b < nextZip s1"
    using b by (simp_all add: delete_conv')
  with assms(5) have gone2: "map_of (zips s2) b = None"
    using run_gone by blast
  have "stat s3 = stat s2"
  proof (cases r)
    case Failed
    with assms(6,7,8) show ?thesis by (auto simp: deliver_def stat_def)
  next
    case (Count n)
    with assms(6,7,8) gone2 show ?thesis by (auto simp: deliver_def zip_next_def stat_def)
  qed (use assms(6,7,8) in \<open>auto simp: deliver_def\<close>)
  with s1 gone1 show ?thesis by (simp add: stat_def)
qed

theorem failed_count_withholds_tuple_witness:
  "run codeunit_compare [SelectCategory None] desktop = Some (onSelectCategory None desktop)
   \<and> snd (pending (onSelectCategory None desktop) ! 1) = zip_source 0 0
   \<and> deliver codeunit_compare 1 Failed (onSelectCategory None desktop) =
       Some (desktop\<lparr>pending := [(searchTasks None [] None None, updateTasks_next),
                                  (getCompletedCountInCategory None, zip_source 0 1),
                                  (getUncompletedCountInCategory None, zip_source 0 2),
                                  (getUncompletedTotalCount, zip_source 0 3)],
                      nextZip := 1\<rparr>)
   \<and> deliver codeunit_compare 1 (Count 3)
       (desktop\<lparr>pending := [(searchTasks None [] None None, updateTasks_next),
                             (getUncompletedCountInCategory None, zip_source 0 2),
                             (getUncompletedTotalCount, zip_source 0 3)],
                 nextZip := 1\<rparr>) =
       Some (desktop\<lparr>pending := [(searchTasks None [] None None, updateTasks_next),
                                  (getUncompletedTotalCount, zip_source 0 3)],
                      nextZip := 1\<rparr>)
   \<and> stat (desktop\<lparr>pending := [(searchTasks None [] None None, updateTasks_next),
                                (getUncompletedTotalCount, zip_source 0 3)],
                    nextZip := 1\<rparr>) = (None, None, None, None)"
  using failed_count_withholds_tuple [where lc = codeunit_compare and ?es0.0 = "[SelectCategory None]"
      and mo = False and ta = False and s = "onSelectCategory None desktop" and i = 1 and b = 0
      and m = 0
      and ?s1.0 = "desktop\<lparr>pending := [(searchTasks None [] None None, updateTasks_next),
                                  (getCompletedCountInCategory None, zip_source 0 1),
                                  (getUncompletedCountInCategory None, zip_source 0 2),
                                  (getUncompletedTotalCount, zip_source 0 3)],
                      nextZip := 1\<rparr>"
      and es = "[Deliver 1 (Count 2)]"
      and ?s2.0 = "desktop\<lparr>pending := [(searchTasks None [] None None, updateTasks_next),
                             (getUncompletedCountInCategory None, zip_source 0 2),
                             (getUncompletedTotalCount, zip_source 0 3)],
                 nextZip := 1\<rparr>"
      and j = 1 and m' = 2 and r = "Count 3"
      and ?s3.0 = "desktop\<lparr>pending := [(searchTasks None [] None None, updateTasks_next),
                                  (getUncompletedTotalCount, zip_source 0 3)],
                      nextZip := 1\<rparr>"]
  by (simp add: handler_defs example_defs deliver_def zip_next_def stat_def AList.delete_eq)

subsection \<open>The order of the category list\<close>

lemma codeunit_compare_flip: "(codeunit_compare a b < 0) = (0 < codeunit_compare b a)"
  by (induction a b rule: codeunit_compare.induct) auto

lemma codeunit_compare_trans:
  "codeunit_compare a b \<le> 0 \<Longrightarrow> codeunit_compare b c \<le> 0 \<Longrightarrow> codeunit_compare a c \<le> 0"
proof (induction a b arbitrary: c rule: codeunit_compare.induct)
  case 1
  then show ?case by simp
next
  case (2 y ys)
  then show ?case by (cases c) auto
next
  case (3 x xs)
  then show ?case by simp
next
  case (4 x xs y ys)
  show ?case
  proof (cases c)
    case Nil
    with "4.prems" show ?thesis by simp
  next
    case (Cons z zs)
    from "4.prems"(1) have xy: "(of_char x :: nat) \<le> of_char y"
      by (simp split: if_splits)
    from "4.prems"(2) Cons have yz: "(of_char y :: nat) \<le> of_char z"
      by (simp split: if_splits)
    show ?thesis
    proof (cases "(of_char x :: nat) < of_char z")
      case True
      with Cons show ?thesis by simp
    next
      case False
      with xy yz have e: "(of_char x :: nat) = of_char y" "(of_char y :: nat) = of_char z"
        by linarith+
      with "4.prems" Cons have "codeunit_compare xs ys \<le> 0" "codeunit_compare ys zs \<le> 0"
        by simp_all
      with "4.IH" e have "codeunit_compare xs zs \<le> 0" by simp
      with e Cons show ?thesis by simp
    qed
  qed
qed

lemma consistent_codeunit_compare: "consistent codeunit_compare"
  unfolding consistent_def using codeunit_compare_flip codeunit_compare_trans by blast

lemma set_insert_by: "set (insert_by cmp x ys) = insert x (set ys)"
  by (induction ys) auto

lemma mset_insert_by: "mset (insert_by cmp x ys) = add_mset x (mset ys)"
  by (induction ys) auto

lemma array_sort_Cons: "array_sort cmp (x # xs) = insert_by cmp x (array_sort cmp xs)"
  by (simp add: array_sort_def)

lemma mset_array_sort: "mset (array_sort cmp xs) = mset xs"
  by (induction xs) (simp_all add: array_sort_Cons mset_insert_by, simp add: array_sort_def)

lemma sorted_insert_by:
  assumes flip: "\<And>a b. 0 < cmp a b \<Longrightarrow> cmp b a \<le> 0"
    and trans: "\<And>a b c. cmp a b \<le> 0 \<Longrightarrow> cmp b c \<le> 0 \<Longrightarrow> cmp a c \<le> 0"
    and ys: "sorted_wrt (\<lambda>a b. cmp a b \<le> 0) ys"
  shows "sorted_wrt (\<lambda>a b. cmp a b \<le> 0) (insert_by cmp x ys)"
  using ys
proof (induction ys)
  case Nil
  then show ?case by simp
next
  case (Cons y ys)
  show ?case
  proof (cases "cmp x y \<le> 0")
    case True
    with Cons.prems trans show ?thesis by auto
  next
    case False
    then have "cmp y x \<le> 0" using flip by simp
    with False Cons show ?thesis by (auto simp: set_insert_by)
  qed
qed

lemma sorted_array_sort:
  assumes flip: "\<And>a b. 0 < cmp a b \<Longrightarrow> cmp b a \<le> 0"
    and trans: "\<And>a b c. cmp a b \<le> 0 \<Longrightarrow> cmp b c \<le> 0 \<Longrightarrow> cmp a c \<le> 0"
  shows "sorted_wrt (\<lambda>a b. cmp a b \<le> 0) (array_sort cmp xs)"
proof (induction xs)
  case Nil
  then show ?case by (simp add: array_sort_def)
next
  case (Cons x xs)
  with sorted_insert_by [OF flip trans] show ?case by (simp add: array_sort_Cons)
qed

lemma filter_insert_by:
  assumes "\<And>y. P x \<Longrightarrow> P y \<Longrightarrow> cmp x y \<le> 0"
  shows "filter P (insert_by cmp x ys) = filter P (x # ys)"
  using assms by (induction ys) auto

lemma filter_array_sort:
  assumes "\<And>x y. P x \<Longrightarrow> P y \<Longrightarrow> cmp x y \<le> 0"
  shows "filter P (array_sort cmp xs) = filter P xs"
proof (induction xs)
  case Nil
  then show ?case by (simp add: array_sort_def)
next
  case (Cons x xs)
  have "filter P (array_sort cmp (x # xs)) = filter P (x # array_sort cmp xs)"
    using filter_insert_by [of P x cmp] assms by (simp add: array_sort_Cons)
  with Cons show ?case by simp
qed

lemma consistent_equal:
  assumes "consistent lc" and "lc a t = 0" and "lc b t = 0"
  shows "lc a b \<le> 0"
proof -
  from assms(1) have flip: "(lc b t < 0) = (0 < lc t b)" "(lc t b < 0) = (0 < lc b t)"
    unfolding consistent_def by blast+
  with assms(3) have "lc t b = 0" by linarith
  with assms show ?thesis unfolding consistent_def by (metis order_refl)
qed

text \<open>
  Claim C8: for a consistent \<^verbatim>\<open>localeCompare\<close>, \<^verbatim>\<open>fillCategories\<close> returns with the
  category list sorted by title in ascending order: the list is a rearrangement of the
  list before, each title compares less than or equal to the titles after it, and for
  every title \<open>t\<close> the categories whose title compares equal to \<open>t\<close> stand in the order
  they had before. The list that a category search returns goes through the same sort.
\<close>

theorem fillCategories_sorts_by_title:
  assumes "consistent lc" and "categories s = Some cs"
  shows "\<exists>s'. fillCategories lc s = Inr s'
          \<and> categories s' = Some (array_sort (by_title lc) cs)
          \<and> sorted_wrt (\<lambda>a b. lc (title a) (title b) \<le> 0) (array_sort (by_title lc) cs)
          \<and> mset (array_sort (by_title lc) cs) = mset cs
          \<and> (\<forall>t. filter (\<lambda>c. lc (title c) t = 0) (array_sort (by_title lc) cs) =
                  filter (\<lambda>c. lc (title c) t = 0) cs)
          \<and> react lc onSearchCategory_next (Categories cs) u =
              Some (u\<lparr>categoryMap := [], categories := Some (array_sort (by_title lc) cs),
                      pending := pending u @
                        map (\<lambda>cat. (getUncompletedCountInCategory (Some cat),
                                     fillCategories_next cat))
                          (array_sort (by_title lc) cs)\<rparr>)"
proof -
  from assms(1) have flip: "0 < by_title lc a b \<Longrightarrow> by_title lc b a \<le> 0" for a b
    unfolding consistent_def by_title_def by (metis less_imp_le)
  from assms(1) have trans:
    "by_title lc a b \<le> 0 \<Longrightarrow> by_title lc b c \<le> 0 \<Longrightarrow> by_title lc a c \<le> 0" for a b c
    unfolding consistent_def by_title_def by blast
  have "sorted_wrt (\<lambda>a b. by_title lc a b \<le> 0) (array_sort (by_title lc) cs)"
    using flip trans by (rule sorted_array_sort)
  then have sorted: "sorted_wrt (\<lambda>a b. lc (title a) (title b) \<le> 0) (array_sort (by_title lc) cs)"
    by (simp add: by_title_def)
  have stable: "filter (\<lambda>c. lc (title c) t = 0) (array_sort (by_title lc) cs) =
      filter (\<lambda>c. lc (title c) t = 0) cs" for t
    by (rule filter_array_sort) (simp add: by_title_def consistent_equal [OF assms(1)])
  from assms(2) sorted stable show ?thesis
    by (simp add: fillCategories_Some mset_array_sort state_after_def)
qed

theorem fillCategories_sorts_by_title_witness:
  "consistent codeunit_compare
   \<and> categories (desktop\<lparr>categories := Some [work, home2, home]\<rparr>) = Some [work, home2, home]
   \<and> map_sum id categories (fillCategories codeunit_compare (desktop\<lparr>categories := Some [work, home2, home]\<rparr>))
       = Inr (Some [home2, home, work])"
  using fillCategories_sorts_by_title [OF consistent_codeunit_compare,
      where s = "desktop\<lparr>categories := Some [work, home2, home]\<rparr>" and cs = "[work, home2, home]"]
    consistent_codeunit_compare
  by (simp add: fillCategories_Some array_sort_def by_title_def example_defs)

end
